theory Spec2Isabelle
  imports Main
begin

section \<open>Data model of \<^verbatim>\<open>main.cpp\<close>\<close>

text \<open>
  \<^verbatim>\<open>enum class EPiece { None = 0, Cross = 1, Cricle = 2 }\<close>. The empty piece carries a
  prime because \<open>None\<close> is the constructor of \<open>option\<close>.
\<close>

datatype EPiece = None' | Cross | Cricle

text \<open>The compile-time constants of namespace \<^verbatim>\<open>game\<close>.\<close>

definition boardWidth :: int where
  "boardWidth = 3"

definition piecesToWin :: int where
  "piecesToWin = 3"

definition playerStart :: bool where
  "playerStart = True"

definition useAi :: bool where
  "useAi = True"

definition playerPiece :: EPiece where
  "playerPiece = (if playerStart then Cross else Cricle)"

definition computerPiece :: EPiece where
  "computerPiece = (if playerStart then Cricle else Cross)"

text \<open>
  \<^verbatim>\<open>using Board = std::array<EPiece, boardWidth * boardWidth>\<close>: a list, whose length
  \<open>boardWidth * boardWidth\<close> is the well-formedness condition \<open>wf_board\<close> below.
  \<^verbatim>\<open>olc::vi2d\<close> is a pair of 32-bit signed integers; its components are modelled as
  \<open>int\<close> and the one place where arbitrary vectors are added, \<^verbatim>\<open>operator+\<close>, wraps
  around at 32 bits (\<open>int32\<close>).
\<close>

type_synonym Board = "EPiece list"

type_synonym vi2d = "int \<times> int"

definition wf_board :: "Board \<Rightarrow> bool" where
  "wf_board board = (int (length board) = boardWidth * boardWidth)"

definition is_int32 :: "int \<Rightarrow> bool" where
  "is_int32 v = (- (2 ^ 31) \<le> v \<and> v < 2 ^ 31)"

definition int32 :: "int \<Rightarrow> int" where
  "int32 v = (v + 2 ^ 31) mod 2 ^ 32 - 2 ^ 31"

definition vi2d_add :: "vi2d \<Rightarrow> vi2d \<Rightarrow> vi2d" where
  "vi2d_add a b = (int32 (fst a + fst b), int32 (snd a + snd b))"

record WinningMove =
  piece :: EPiece
  position :: vi2d
  direction :: vi2d

text \<open>
  The exceptions: \<^verbatim>\<open>std::out_of_range\<close> from \<^verbatim>\<open>std::array::at\<close>, and the
  \<^verbatim>\<open>std::future_error\<close> of a \<^verbatim>\<open>std::future\<close> that holds no shared state.
  \<^verbatim>\<open>at\<close> compares its index with the size of the array; a negative \<^verbatim>\<open>int\<close> converts to
  a huge \<^verbatim>\<open>size_t\<close> and throws as well. The size of a well-formed board is
  \<open>boardWidth * boardWidth\<close>.
\<close>

datatype error = out_of_range | future_no_state

text \<open>
  The outcome of a call: \<open>None\<close> when the call does not return, \<open>Some (Inl e)\<close> when
  it throws \<open>e\<close>, \<open>Some (Inr v)\<close> when it returns \<open>v\<close>. \<open>and_then m f\<close> continues with
  \<open>f\<close> on the value that \<open>m\<close> returned and passes on the other two outcomes.
\<close>

type_synonym 'a result = "(error + 'a) option"

definition and_then :: "'a result \<Rightarrow> ('a \<Rightarrow> 'b result) \<Rightarrow> 'b result" where
  "and_then m f = (case m of None \<Rightarrow> None | Some (Inl e) \<Rightarrow> Some (Inl e) | Some (Inr v) \<Rightarrow> f v)"

definition board_at :: "Board \<Rightarrow> int \<Rightarrow> error + EPiece" where
  "board_at board i =
     (if 0 \<le> i \<and> i < int (length board) then Inr (board ! nat i) else Inl out_of_range)"

section \<open>Win detection\<close>

text \<open>
  \<^verbatim>\<open>CheckLine\<close> recurses until the probe leaves the grid or meets another piece. With the
  zero vector as direction it never returns on a matching cell, so it is a partial
  function and \<open>None\<close> stands for "does not return". After the two range checks the
  index \<open>pos.x * boardWidth + pos.y\<close> lies in the array of a well-formed board, so that
  \<^verbatim>\<open>at\<close> does not throw there (lemma \<open>CheckLine_index_in_range\<close>).
\<close>

partial_function (option) CheckLine :: "Board \<Rightarrow> EPiece \<Rightarrow> vi2d \<Rightarrow> vi2d \<Rightarrow> int result" where
  "CheckLine board expected pos searchDirection =
     (if fst pos < 0 \<or> fst pos \<ge> boardWidth then Some (Inr 0)
      else if snd pos < 0 \<or> snd pos \<ge> boardWidth then Some (Inr 0)
      else case board_at board (fst pos * boardWidth + snd pos) of
             Inl e \<Rightarrow> Some (Inl e)
           | Inr c \<Rightarrow>
               if c \<noteq> expected then Some (Inr 0)
               else Option.bind
                      (CheckLine board expected (vi2d_add pos searchDirection) searchDirection)
                      (\<lambda>r. case r of Inl e \<Rightarrow> Some (Inl e) | Inr n \<Rightarrow> Some (Inr (1 + n))))"

declare CheckLine.simps [code]

text \<open>
  \<^verbatim>\<open>CheckWin\<close> returns a \<^verbatim>\<open>std::optional<WinningMove>\<close>, the \<open>option\<close> inside the result.
  The index has passed \<^verbatim>\<open>at\<close> when it is divided, so it is not negative, and \<^verbatim>\<open>/\<close> and
  \<^verbatim>\<open>%\<close> are \<open>div\<close> and \<open>mod\<close>.
\<close>

definition CheckWin :: "Board \<Rightarrow> int \<Rightarrow> WinningMove option result" where
  "CheckWin board placedPiecePosition =
     (case board_at board placedPiecePosition of
        Inl e \<Rightarrow> Some (Inl e)
      | Inr placedPiece \<Rightarrow>
          (let pos = (placedPiecePosition div boardWidth, placedPiecePosition mod boardWidth) in
           and_then (CheckLine board placedPiece pos (- 1, 0)) (\<lambda>h1.
           and_then (CheckLine board placedPiece (fst pos + 1, snd pos) (1, 0)) (\<lambda>h2.
           if h1 + h2 \<ge> piecesToWin
           then Some (Inr (Some \<lparr>piece = placedPiece, position = pos, direction = (- 1, 0)\<rparr>))
           else
           and_then (CheckLine board placedPiece pos (0, - 1)) (\<lambda>v1.
           and_then (CheckLine board placedPiece (fst pos, snd pos + 1) (0, 1)) (\<lambda>v2.
           if v1 + v2 \<ge> piecesToWin
           then Some (Inr (Some \<lparr>piece = placedPiece, position = pos, direction = (0, - 1)\<rparr>))
           else
           and_then (CheckLine board placedPiece pos (- 1, - 1)) (\<lambda>d1.
           and_then (CheckLine board placedPiece (fst pos + 1, snd pos + 1) (1, 1)) (\<lambda>d2.
           if d1 + d2 \<ge> piecesToWin
           then Some (Inr (Some \<lparr>piece = placedPiece, position = pos, direction = (- 1, - 1)\<rparr>))
           else
           and_then (CheckLine board placedPiece pos (- 1, 1)) (\<lambda>e1.
           and_then (CheckLine board placedPiece (fst pos + 1, snd pos - 1) (1, - 1)) (\<lambda>e2.
           if e1 + e2 \<ge> piecesToWin
           then Some (Inr (Some \<lparr>piece = placedPiece, position = pos, direction = (- 1, 1)\<rparr>))
           else Some (Inr None)))))))))))"

text \<open>The cells of the grid, as \<^verbatim>\<open>CheckLine\<close> addresses them.\<close>

definition in_grid :: "vi2d \<Rightarrow> bool" where
  "in_grid p = (0 \<le> fst p \<and> fst p < boardWidth \<and> 0 \<le> snd p \<and> snd p < boardWidth)"

definition cell :: "Board \<Rightarrow> vi2d \<Rightarrow> EPiece" where
  "cell board p = board ! nat (fst p * boardWidth + snd p)"

definition hit :: "Board \<Rightarrow> EPiece \<Rightarrow> vi2d \<Rightarrow> bool" where
  "hit board expected p = (in_grid p \<and> cell board p = expected)"

text \<open>
  Vocabulary for the statements about runs. \<open>shift p k d\<close> is the cell \<open>k\<close> steps from
  \<open>p\<close> along \<open>d\<close>; \<open>families\<close> lists the four directions in the order in which
  \<^verbatim>\<open>CheckWin\<close> tries them; \<open>cell_of\<close> is the position \<^verbatim>\<open>CheckWin\<close> computes from an
  index. \<open>on_run board idx d\<close> says that the cell \<open>idx\<close> lies on a contiguous run of
  cells holding its own piece, along the line of direction \<open>d\<close>, with \<open>a\<close> cells
  before it and \<open>b\<close> cells after it and at least \<open>piecesToWin\<close> cells in all.
\<close>

definition shift :: "vi2d \<Rightarrow> int \<Rightarrow> vi2d \<Rightarrow> vi2d" where
  "shift p k d = (fst p + k * fst d, snd p + k * snd d)"

definition families :: "vi2d list" where
  "families = [(- 1, 0), (0, - 1), (- 1, - 1), (- 1, 1)]"

definition cell_of :: "int \<Rightarrow> vi2d" where
  "cell_of idx = (idx div boardWidth, idx mod boardWidth)"

definition on_run :: "Board \<Rightarrow> int \<Rightarrow> vi2d \<Rightarrow> bool" where
  "on_run board idx d =
     (\<exists>a \<in> set [0..<nat boardWidth]. \<exists>b \<in> set [0..<nat boardWidth].
        piecesToWin \<le> int a + int b + 1 \<and>
        (\<forall>k \<in> set [0..<a + b + 1].
           hit board (board ! nat idx) (shift (cell_of idx) (int k - int a) d)))"

definition unit_dir :: "vi2d \<Rightarrow> bool" where
  "unit_dir d = (fst d \<in> {- 1, 0, 1} \<and> snd d \<in> {- 1, 0, 1} \<and> (fst d \<noteq> 0 \<or> snd d \<noteq> 0))"

definition neg :: "vi2d \<Rightarrow> vi2d" where
  "neg d = (- fst d, - snd d)"

text \<open>The two boards of the scenario: before and after placing the third cross.\<close>

definition scenario_two :: Board where
  "scenario_two = [Cross, Cross, None', Cricle, Cricle, None', None', None', None']"

definition scenario_three :: Board where
  "scenario_three = [Cross, Cross, Cross, Cricle, Cricle, None', None', None', None']"

section \<open>Termination of the line scan\<close>

lemma CheckLine_index_in_range:
  assumes "wf_board board" and "in_grid p"
  shows "board_at board (fst p * boardWidth + snd p) = Inr (cell board p)"
proof -
  have "fst p * 3 + snd p < 9" "0 \<le> fst p * 3 + snd p"
    using assms(2) by (simp_all add: in_grid_def boardWidth_def)
  then show ?thesis
    using assms(1) by (simp add: board_at_def cell_def boardWidth_def wf_board_def)
qed

lemma and_then_simps [simp]:
  "and_then None f = None"
  "and_then (Some (Inl e)) f = Some (Inl e)"
  "and_then (Some (Inr v)) f = f v"
  by (simp_all add: and_then_def)

lemma CheckLine_outside:
  "\<not> in_grid p \<Longrightarrow> CheckLine board expected p d = Some (Inr 0)"
  by (subst CheckLine.simps) (auto simp: in_grid_def)

lemma CheckLine_miss:
  assumes "wf_board board" and "\<not> hit board expected p"
  shows "CheckLine board expected p d = Some (Inr 0)"
proof (cases "in_grid p")
  case False
  then show ?thesis by (rule CheckLine_outside)
next
  case True
  then have "cell board p \<noteq> expected" using assms(2) by (simp add: hit_def)
  then show ?thesis
    using True CheckLine_index_in_range [OF assms(1) True]
    by (subst CheckLine.simps) (auto simp: in_grid_def)
qed

lemma CheckLine_hit:
  assumes "wf_board board" and "hit board expected p"
  shows "CheckLine board expected p d =
     and_then (CheckLine board expected (vi2d_add p d) d) (\<lambda>n. Some (Inr (1 + n)))"
proof -
  have g: "in_grid p" and c: "cell board p = expected" using assms(2) by (simp_all add: hit_def)
  have "CheckLine board expected p d =
      Option.bind (CheckLine board expected (vi2d_add p d) d)
        (\<lambda>r. case r of Inl e \<Rightarrow> Some (Inl e) | Inr n \<Rightarrow> Some (Inr (1 + n)))"
    using g c CheckLine_index_in_range [OF assms(1) g]
    by (subst CheckLine.simps) (auto simp: in_grid_def)
  then show ?thesis
    by (cases "CheckLine board expected (vi2d_add p d) d") (auto split: sum.splits)
qed

lemma CheckLine_iter:
  fixes f :: "vi2d \<Rightarrow> nat"
  assumes wf: "wf_board board"
    and step: "\<And>p. in_grid p \<Longrightarrow> in_grid (vi2d_add p d) \<Longrightarrow> f (vi2d_add p d) < f p"
  shows "\<exists>n. CheckLine board expected pos d = Some (Inr (int n)) \<and>
             (\<forall>k<n. hit board expected (((\<lambda>q. vi2d_add q d) ^^ k) pos)) \<and>
             \<not> hit board expected (((\<lambda>q. vi2d_add q d) ^^ n) pos)"
proof (induction "f pos" arbitrary: pos rule: less_induct)
  case less
  let ?P = "\<lambda>p n. CheckLine board expected p d = Some (Inr (int n)) \<and>
             (\<forall>k<n. hit board expected (((\<lambda>q. vi2d_add q d) ^^ k) p)) \<and>
             \<not> hit board expected (((\<lambda>q. vi2d_add q d) ^^ n) p)"
  show ?case
  proof (cases "hit board expected pos")
    case False
    then have "?P pos 0" by (simp add: CheckLine_miss [OF wf])
    then show ?thesis ..
  next
    case True
    let ?q = "vi2d_add pos d"
    have "\<exists>n. ?P ?q n"
    proof (cases "in_grid ?q")
      case False
      then have "?P ?q 0" by (simp add: CheckLine_outside hit_def)
      then show ?thesis ..
    next
      case inside: True
      from True have "in_grid pos" by (simp add: hit_def)
      then have "f ?q < f pos" using inside by (rule step)
      then show ?thesis by (rule less)
    qed
    then obtain m where m: "?P ?q m" ..
    have a: "CheckLine board expected pos d = Some (Inr (int (Suc m)))"
      using True m by (simp add: CheckLine_hit [OF wf])
    have b: "hit board expected (((\<lambda>q. vi2d_add q d) ^^ k) pos)" if "k < Suc m" for k
    proof (cases k)
      case 0
      then show ?thesis using True by simp
    next
      case (Suc j)
      then have "j < m" using that by simp
      then have "hit board expected (((\<lambda>q. vi2d_add q d) ^^ j) ?q)" using m by simp
      then show ?thesis unfolding Suc by (simp only: funpow_Suc_right o_apply)
    qed
    have c: "\<not> hit board expected (((\<lambda>q. vi2d_add q d) ^^ Suc m) pos)"
      using m by (simp only: funpow_Suc_right o_apply) simp
    have "?P pos (Suc m)"
      by (intro conjI allI impI) (rule a, erule b, rule c)
    then show ?thesis ..
  qed
qed

lemma CheckLine_measure:
  fixes f :: "vi2d \<Rightarrow> nat"
  assumes wf: "wf_board board"
    and step: "\<And>p. in_grid p \<Longrightarrow> in_grid (vi2d_add p d) \<Longrightarrow> f (vi2d_add p d) < f p"
  shows "\<exists>n. CheckLine board expected pos d = Some (Inr n) \<and> 0 \<le> n"
proof -
  obtain n where "CheckLine board expected pos d = Some (Inr (int n))"
    using CheckLine_iter [of board d f expected pos, OF wf step] by blast
  then show ?thesis by simp
qed

lemma int32_id: "is_int32 v \<Longrightarrow> int32 v = v"
  unfolding int32_def is_int32_def by (simp add: mod_pos_pos_trivial)

lemma int32_over: "2 ^ 31 \<le> v \<Longrightarrow> v < 2 ^ 31 + 2 ^ 32 \<Longrightarrow> int32 v = v - 2 ^ 32"
proof -
  assume a: "2 ^ 31 \<le> v" "v < 2 ^ 31 + 2 ^ 32"
  have "(v + 2 ^ 31) mod 2 ^ 32 = (v + 2 ^ 31 - 2 ^ 32) mod 2 ^ 32"
    by (metis mod_diff_right_eq mod_self diff_zero)
  also have "\<dots> = v + 2 ^ 31 - 2 ^ 32"
    using a by (intro mod_pos_pos_trivial) simp_all
  finally show ?thesis by (simp add: int32_def)
qed

lemma int32_step_up:
  assumes "0 \<le> a" "a < 3" "0 < e" "is_int32 e"
  shows "int32 (a + e) < 0 \<or> a < int32 (a + e)"
proof (cases "a + e < 2 ^ 31")
  case True
  then have "int32 (a + e) = a + e" using assms by (intro int32_id) (simp add: is_int32_def)
  then show ?thesis using assms by simp
next
  case False
  then have "int32 (a + e) = a + e - 2 ^ 32"
    using assms by (intro int32_over) (simp_all add: is_int32_def)
  then show ?thesis using assms by (simp add: is_int32_def)
qed

lemma int32_step_down:
  assumes "0 \<le> a" "a < 3" "e < 0" "is_int32 e"
  shows "int32 (a + e) < a"
proof -
  have "int32 (a + e) = a + e" using assms by (intro int32_id) (simp add: is_int32_def)
  then show ?thesis using assms by simp
qed

text \<open>
  The condition on the direction is needed: with the zero vector the probe never moves,
  and on a cell that holds the expected piece the call has no result.
\<close>

lemma CheckLine_Some_moves:
  "CheckLine board expected pos d = Some y \<Longrightarrow>
   wf_board board \<longrightarrow> d = (0, 0) \<longrightarrow> \<not> hit board expected pos"
proof (rule CheckLine.raw_induct
    [where P = "\<lambda>b e p d y. wf_board b \<longrightarrow> d = (0, 0) \<longrightarrow> \<not> hit b e p"])
  fix call b e p d y
  assume ih: "\<And>b' e' p' d' y'. call b' e' p' d' = Some y' \<Longrightarrow>
      wf_board b' \<longrightarrow> d' = (0, 0) \<longrightarrow> \<not> hit b' e' p'"
    and body: "(if fst p < 0 \<or> boardWidth \<le> fst p then Some (Inr 0)
         else if snd p < 0 \<or> boardWidth \<le> snd p then Some (Inr 0)
         else case board_at b (fst p * boardWidth + snd p) of
                Inl e \<Rightarrow> Some (Inl e)
              | Inr c \<Rightarrow>
                  if c \<noteq> e then Some (Inr 0)
                  else Option.bind (call b e (vi2d_add p d) d)
                         (\<lambda>r. case r of Inl e \<Rightarrow> Some (Inl e)
                               | Inr n \<Rightarrow> Some (Inr (1 + n)))) = Some y"
  show "wf_board b \<longrightarrow> d = (0, 0) \<longrightarrow> \<not> hit b e p"
  proof (intro impI notI)
    assume wf: "wf_board b" and d: "d = (0, 0)" and h: "hit b e p"
    have g: "in_grid p" and c: "cell b p = e" using h by (simp_all add: hit_def)
    have "is_int32 (fst p)" "is_int32 (snd p)"
      using g by (simp_all add: in_grid_def boardWidth_def is_int32_def)
    then have same: "vi2d_add p d = p" using d by (simp add: vi2d_add_def int32_id)
    from body g c obtain r where "call b e (vi2d_add p d) d = Some r"
      using CheckLine_index_in_range [OF wf g]
      by (auto simp: in_grid_def split: if_splits bind_splits)
    then have "\<not> hit b e (vi2d_add p d)" using ih wf d by blast
    then show False using h same by simp
  qed
qed assumption

lemma CheckLine_zero_direction:
  assumes "wf_board board" and "hit board expected pos"
  shows "CheckLine board expected pos (0, 0) = None"
  using CheckLine_Some_moves [of board expected pos "(0, 0)"] assms
  by (cases "CheckLine board expected pos (0, 0)") auto

text \<open>
  C10. For every board (an array of \<open>boardWidth * boardWidth\<close> cells, as the type
  \<^verbatim>\<open>Board\<close> has it), expected piece and start position, and every search direction
  (a pair of 32-bit integers) with a non-zero component, \<^verbatim>\<open>CheckLine\<close> returns, without
  an exception, and what it returns is a non-negative count; a probe outside the grid
  or on a cell that holds another piece returns 0.
\<close>

theorem CheckLine_terminates:
  assumes "wf_board board"
    and "is_int32 (fst d)" and "is_int32 (snd d)" and "fst d \<noteq> 0 \<or> snd d \<noteq> 0"
  shows "\<exists>n. CheckLine board expected pos d = Some (Inr n) \<and> 0 \<le> n \<and>
             (\<not> hit board expected pos \<longrightarrow> n = 0)"
proof -
  note wf = assms(1)
  consider (xup) "0 < fst d" | (xdown) "fst d < 0" | (yup) "0 < snd d" | (ydown) "snd d < 0"
    using assms(4) by linarith
  then have "\<exists>n. CheckLine board expected pos d = Some (Inr n) \<and> 0 \<le> n"
  proof cases
    case xup
    show ?thesis
    proof (rule CheckLine_measure [OF wf, where f = "\<lambda>p. nat (3 - fst p)"])
      fix p assume "in_grid p" "in_grid (vi2d_add p d)"
      then show "nat (3 - fst (vi2d_add p d)) < nat (3 - fst p)"
        using int32_step_up [of "fst p" "fst d"] xup assms(2)
        by (auto simp: in_grid_def vi2d_add_def boardWidth_def)
    qed
  next
    case xdown
    show ?thesis
    proof (rule CheckLine_measure [OF wf, where f = "\<lambda>p. nat (fst p)"])
      fix p assume "in_grid p" "in_grid (vi2d_add p d)"
      then show "nat (fst (vi2d_add p d)) < nat (fst p)"
        using int32_step_down [of "fst p" "fst d"] xdown assms(2)
        by (auto simp: in_grid_def vi2d_add_def boardWidth_def)
    qed
  next
    case yup
    show ?thesis
    proof (rule CheckLine_measure [OF wf, where f = "\<lambda>p. nat (3 - snd p)"])
      fix p assume "in_grid p" "in_grid (vi2d_add p d)"
      then show "nat (3 - snd (vi2d_add p d)) < nat (3 - snd p)"
        using int32_step_up [of "snd p" "snd d"] yup assms(3)
        by (auto simp: in_grid_def vi2d_add_def boardWidth_def)
    qed
  next
    case ydown
    show ?thesis
    proof (rule CheckLine_measure [OF wf, where f = "\<lambda>p. nat (snd p)"])
      fix p assume "in_grid p" "in_grid (vi2d_add p d)"
      then show "nat (snd (vi2d_add p d)) < nat (snd p)"
        using int32_step_down [of "snd p" "snd d"] ydown assms(3)
        by (auto simp: in_grid_def vi2d_add_def boardWidth_def)
    qed
  qed
  then show ?thesis using CheckLine_miss [OF wf, of expected pos d] by auto
qed

theorem CheckLine_terminates_witness:
  "wf_board scenario_three \<and> is_int32 (fst (2147483647, 0)) \<and>
   is_int32 (snd (2147483647 :: int, 0 :: int)) \<and>
   (\<exists>n. CheckLine scenario_three Cross (0, 2) (2147483647, 0) = Some (Inr n) \<and> 0 \<le> n)"
proof -
  have w: "wf_board scenario_three"
    by (simp add: wf_board_def scenario_three_def boardWidth_def)
  show ?thesis
    using CheckLine_terminates [OF w, of "(2147483647, 0)" Cross "(0, 2)"] w
    by (auto simp: is_int32_def)
qed

section \<open>Runs and the result of the win detector\<close>

lemma unit_step:
  assumes "in_grid p" "unit_dir d"
  shows "vi2d_add p d = shift p 1 d"
proof -
  have "is_int32 (fst p + fst d)" "is_int32 (snd p + snd d)"
    using assms by (auto simp: in_grid_def unit_dir_def boardWidth_def is_int32_def)
  then show ?thesis by (simp add: vi2d_add_def shift_def int32_id)
qed

lemma shift_shift: "shift (shift p j d) k d = shift p (j + k) d"
  by (simp add: shift_def algebra_simps)

lemma unit_iter:
  assumes "unit_dir d" "\<forall>j<k. in_grid (((\<lambda>q. vi2d_add q d) ^^ j) p)"
  shows "((\<lambda>q. vi2d_add q d) ^^ k) p = shift p (int k) d"
  using assms(2)
proof (induction k)
  case 0
  show ?case by (simp add: shift_def)
next
  case (Suc k)
  then have eq: "((\<lambda>q. vi2d_add q d) ^^ k) p = shift p (int k) d" by simp
  have "in_grid (((\<lambda>q. vi2d_add q d) ^^ k) p)" using Suc.prems by simp
  then have "vi2d_add (shift p (int k) d) d = shift (shift p (int k) d) 1 d"
    using assms(1) eq by (simp add: unit_step)
  then show ?case using eq by (simp add: shift_shift add.commute)
qed

lemma unit_measure:
  assumes "unit_dir d"
  shows "\<exists>f :: vi2d \<Rightarrow> nat. \<forall>p. in_grid p \<longrightarrow> in_grid (vi2d_add p d) \<longrightarrow> f (vi2d_add p d) < f p"
proof -
  have sh: "vi2d_add p d = (fst p + fst d, snd p + snd d)" if "in_grid p" for p
    using unit_step [OF that assms] by (simp add: shift_def)
  consider (xup) "fst d = 1" | (xdown) "fst d = - 1" | (yup) "snd d = 1" | (ydown) "snd d = - 1"
    using assms by (auto simp: unit_dir_def)
  then show ?thesis
  proof cases
    case xup
    have "nat (3 - fst (vi2d_add p d)) < nat (3 - fst p)" if "in_grid p" for p
      using that xup by (simp add: sh) (simp add: in_grid_def boardWidth_def)
    then show ?thesis by (intro exI [of _ "\<lambda>p. nat (3 - fst p)"]) simp
  next
    case xdown
    have "nat (fst (vi2d_add p d)) < nat (fst p)" if "in_grid p" "in_grid (vi2d_add p d)" for p
      using that xdown by (simp add: sh) (simp add: in_grid_def boardWidth_def)
    then show ?thesis by (intro exI [of _ "\<lambda>p. nat (fst p)"]) simp
  next
    case yup
    have "nat (3 - snd (vi2d_add p d)) < nat (3 - snd p)" if "in_grid p" for p
      using that yup by (simp add: sh) (simp add: in_grid_def boardWidth_def)
    then show ?thesis by (intro exI [of _ "\<lambda>p. nat (3 - snd p)"]) simp
  next
    case ydown
    have "nat (snd (vi2d_add p d)) < nat (snd p)" if "in_grid p" "in_grid (vi2d_add p d)" for p
      using that ydown by (simp add: sh) (simp add: in_grid_def boardWidth_def)
    then show ?thesis by (intro exI [of _ "\<lambda>p. nat (snd p)"]) simp
  qed
qed

lemma CheckLine_unit:
  assumes "unit_dir d" and wf: "wf_board board"
  shows "\<exists>n. CheckLine board expected pos d = Some (Inr (int n)) \<and>
             (\<forall>k<n. hit board expected (shift pos (int k) d)) \<and>
             \<not> hit board expected (shift pos (int n) d)"
proof -
  obtain f :: "vi2d \<Rightarrow> nat" where
    f: "\<And>p. in_grid p \<Longrightarrow> in_grid (vi2d_add p d) \<Longrightarrow> f (vi2d_add p d) < f p"
    using unit_measure [OF assms(1)] by blast
  let ?it = "\<lambda>k. ((\<lambda>q. vi2d_add q d) ^^ k) pos"
  obtain n where n: "CheckLine board expected pos d = Some (Inr (int n))"
      "\<forall>k<n. hit board expected (?it k)" "\<not> hit board expected (?it n)"
    using CheckLine_iter [of board d f expected pos, OF wf f] by blast
  have it: "?it k = shift pos (int k) d" if "k \<le> n" for k
  proof (rule unit_iter [OF assms(1)], intro allI impI)
    fix j assume "j < k"
    then have "hit board expected (?it j)" using n(2) that by simp
    then show "in_grid (?it j)" by (simp add: hit_def)
  qed
  have a: "hit board expected (shift pos (int k) d)" if "k < n" for k
  proof -
    have "hit board expected (?it k)" using n(2) that by blast
    then show ?thesis unfolding it [OF less_imp_le [OF that]] .
  qed
  have b: "\<not> hit board expected (shift pos (int n) d)"
    using n(3) unfolding it [OF order_refl] .
  show ?thesis
    by (rule exI [of _ n], intro conjI allI impI) (rule n(1), erule a, rule b)
qed

lemma unit_dir_neg: "unit_dir d \<Longrightarrow> unit_dir (neg d)"
  by (auto simp: unit_dir_def neg_def)

lemma shift_neg: "shift (shift p (- 1) d) k (neg d) = shift p (- (k + 1)) d"
  by (simp add: shift_def neg_def algebra_simps)

lemma in_grid_span:
  assumes "unit_dir d" "in_grid p" "in_grid (shift p k d)"
  shows "- (boardWidth - 1) \<le> k \<and> k \<le> boardWidth - 1"
proof -
  consider "fst d = 1" | "fst d = - 1" | "snd d = 1" | "snd d = - 1"
    using assms(1) by (auto simp: unit_dir_def)
  then show ?thesis
    using assms(2,3) by cases (simp_all add: in_grid_def shift_def boardWidth_def)
qed

lemma cell_of_in_grid:
  assumes "0 \<le> idx" "idx < boardWidth * boardWidth"
  shows "in_grid (cell_of idx)" and "cell board (cell_of idx) = board ! nat idx"
proof -
  have "0 \<le> idx div 3" "idx div 3 < 3" "0 \<le> idx mod 3" "idx mod 3 < 3"
    using assms by (simp_all add: boardWidth_def)
  then show "in_grid (cell_of idx)"
    by (simp add: in_grid_def cell_of_def boardWidth_def)
  show "cell board (cell_of idx) = board ! nat idx"
    by (simp add: cell_of_def cell_def boardWidth_def)
qed

lemma family_count:
  assumes d: "unit_dir d" and wf: "wf_board board"
    and idx: "0 \<le> idx" "idx < boardWidth * boardWidth"
  shows "\<exists>h1 h2. CheckLine board (board ! nat idx) (cell_of idx) d = Some (Inr h1) \<and>
           CheckLine board (board ! nat idx) (shift (cell_of idx) (- 1) d) (neg d) =
             Some (Inr h2) \<and>
           (piecesToWin \<le> h1 + h2 \<longleftrightarrow> on_run board idx d)"
proof -
  let ?e = "board ! nat idx" and ?p = "cell_of idx"
  let ?H = "\<lambda>k. hit board ?e (shift ?p k d)"
  obtain n1 where n1: "CheckLine board ?e ?p d = Some (Inr (int n1))"
      "\<forall>k<n1. ?H (int k)" "\<not> ?H (int n1)"
    using CheckLine_unit [OF d wf, of ?e ?p] by blast
  obtain n2 where n2: "CheckLine board ?e (shift ?p (- 1) d) (neg d) = Some (Inr (int n2))"
      "\<forall>k<n2. ?H (- (int k + 1))" "\<not> ?H (- (int n2 + 1))"
    using CheckLine_unit [OF unit_dir_neg [OF d] wf, of ?e "shift ?p (- 1) d"]
    unfolding shift_neg by blast
  have H0: "?H 0"
    using cell_of_in_grid(1) [OF idx] cell_of_in_grid(2) [OF idx, of board]
    by (simp add: hit_def shift_def)
  have up: "?H k" if "0 \<le> k" "k < int n1" for k
    using n1(2) that by (metis nat_less_iff int_nat_eq)
  have down: "?H k" if "- int n2 \<le> k" "k < 0" for k
  proof -
    have "nat (- k - 1) < n2" using that by linarith
    then have "?H (- (int (nat (- k - 1)) + 1))" using n2(2) by blast
    then show ?thesis using that by simp
  qed
  have pos1: "0 < n1" using H0 n1(3) by (cases n1) auto
  have "on_run board idx d" if ge: "piecesToWin \<le> int n1 + int n2"
  proof -
    have g: "in_grid ?p" using cell_of_in_grid(1) [OF idx] .
    have "?H (int n1 - 1)" using up [of "int n1 - 1"] pos1 by simp
    then have hi: "int n1 - 1 \<le> boardWidth - 1"
      using in_grid_span [OF d g, of "int n1 - 1"] by (simp add: hit_def)
    have "?H (- int n2)"
    proof (cases "n2 = 0")
      case True then show ?thesis using H0 by simp
    next
      case False then show ?thesis using down [of "- int n2"] by simp
    qed
    then have lo: "- (boardWidth - 1) \<le> - int n2"
      using in_grid_span [OF d g, of "- int n2"] by (simp add: hit_def)
    have all: "\<forall>k \<in> set [0..<n2 + (n1 - 1) + 1]. ?H (int k - int n2)"
    proof
      fix k assume "k \<in> set [0..<n2 + (n1 - 1) + 1]"
      then have "- int n2 \<le> int k - int n2" "int k - int n2 < int n1" using pos1 by auto
      then show "?H (int k - int n2)"
        using up [of "int k - int n2"] down [of "int k - int n2"]
        by (cases "0 \<le> int k - int n2") auto
    qed
    show ?thesis unfolding on_run_def
    proof (rule bexI [of _ n2], rule bexI [of _ "n1 - 1"], intro conjI)
      show "piecesToWin \<le> int n2 + int (n1 - 1) + 1" using ge pos1 by simp
      show "\<forall>k \<in> set [0..<n2 + (n1 - 1) + 1]. ?H (int k - int n2)" by (rule all)
      show "n1 - 1 \<in> set [0..<nat boardWidth]" using hi pos1 by (simp add: boardWidth_def)
      show "n2 \<in> set [0..<nat boardWidth]" using lo by (simp add: boardWidth_def)
    qed
  qed
  moreover have "piecesToWin \<le> int n1 + int n2" if "on_run board idx d"
  proof -
    from that obtain a b where ab: "piecesToWin \<le> int a + int b + 1"
        "\<forall>k \<in> set [0..<a + b + 1]. ?H (int k - int a)"
      unfolding on_run_def by auto
    have "int b < int n1"
    proof (rule ccontr)
      assume "\<not> int b < int n1"
      then have "a + n1 \<in> set [0..<a + b + 1]" by auto
      then have h: "?H (int (a + n1) - int a)" using ab(2) by blast
      have eq: "int (a + n1) - int a = int n1" by simp
      have "?H (int n1)" using h unfolding eq .
      then show False using n1(3) by blast
    qed
    moreover have "int a \<le> int n2"
    proof (rule ccontr)
      assume n: "\<not> int a \<le> int n2"
      then have "a - (n2 + 1) \<in> set [0..<a + b + 1]" by auto
      then have h: "?H (int (a - (n2 + 1)) - int a)" using ab(2) by blast
      have eq: "int (a - (n2 + 1)) - int a = - (int n2 + 1)" using n by simp
      have "?H (- (int n2 + 1))" using h unfolding eq .
      then show False using n2(3) by blast
    qed
    ultimately show ?thesis using ab(1) by linarith
  qed
  ultimately have "piecesToWin \<le> int n1 + int n2 \<longleftrightarrow> on_run board idx d" by blast
  then show ?thesis using n1(1) n2(1) by blast
qed

lemma families_unit: "d \<in> set families \<Longrightarrow> unit_dir d"
  by (auto simp: families_def unit_dir_def)

lemma CheckWin_find:
  assumes wf: "wf_board board" and idx: "0 \<le> idx" "idx < boardWidth * boardWidth"
  shows "CheckWin board idx =
         Some (Inr (map_option
           (\<lambda>d. \<lparr>piece = board ! nat idx, position = cell_of idx, direction = d\<rparr>)
           (find (on_run board idx) families)))"
proof -
  let ?e = "board ! nat idx" and ?p = "cell_of idx"
  have fam: "\<exists>h1 h2. CheckLine board ?e ?p d = Some (Inr h1) \<and>
           CheckLine board ?e (fst ?p - fst d, snd ?p - snd d) (- fst d, - snd d) =
             Some (Inr h2) \<and>
           (piecesToWin \<le> h1 + h2 \<longleftrightarrow> on_run board idx d)" if "d \<in> set families" for d
    using family_count [OF families_unit [OF that] wf idx]
    by (simp add: shift_def neg_def)
  obtain h1 h2 where h: "CheckLine board ?e ?p (- 1, 0) = Some (Inr h1)"
      "CheckLine board ?e (fst ?p + 1, snd ?p) (1, 0) = Some (Inr h2)"
      "piecesToWin \<le> h1 + h2 \<longleftrightarrow> on_run board idx (- 1, 0)"
    using fam [of "(- 1, 0)"] by (auto simp: families_def)
  obtain v1 v2 where v: "CheckLine board ?e ?p (0, - 1) = Some (Inr v1)"
      "CheckLine board ?e (fst ?p, snd ?p + 1) (0, 1) = Some (Inr v2)"
      "piecesToWin \<le> v1 + v2 \<longleftrightarrow> on_run board idx (0, - 1)"
    using fam [of "(0, - 1)"] by (auto simp: families_def)
  obtain d1 d2 where d: "CheckLine board ?e ?p (- 1, - 1) = Some (Inr d1)"
      "CheckLine board ?e (fst ?p + 1, snd ?p + 1) (1, 1) = Some (Inr d2)"
      "piecesToWin \<le> d1 + d2 \<longleftrightarrow> on_run board idx (- 1, - 1)"
    using fam [of "(- 1, - 1)"] by (auto simp: families_def)
  obtain e1 e2 where e: "CheckLine board ?e ?p (- 1, 1) = Some (Inr e1)"
      "CheckLine board ?e (fst ?p + 1, snd ?p - 1) (1, - 1) = Some (Inr e2)"
      "piecesToWin \<le> e1 + e2 \<longleftrightarrow> on_run board idx (- 1, 1)"
    using fam [of "(- 1, 1)"] by (auto simp: families_def)
  have at: "board_at board idx = Inr ?e"
    using idx wf by (simp add: board_at_def wf_board_def)
  show ?thesis
    unfolding CheckWin_def at cell_of_def [symmetric]
    by (simp add: Let_def h v d e families_def)
qed

text \<open>
  C2. For every board and every index of the board: if the cell does not lie on a
  contiguous run of its own piece of length at least \<open>piecesToWin\<close> along any of the
  four direction families, \<^verbatim>\<open>CheckWin\<close> returns the empty optional.
\<close>

theorem CheckWin_no_run:
  assumes "wf_board board" and "0 \<le> idx" and "idx < boardWidth * boardWidth"
    and "\<forall>d \<in> set families. \<not> on_run board idx d"
  shows "CheckWin board idx = Some (Inr None)"
proof -
  have "find (on_run board idx) families = None"
    using assms(4) by (simp add: find_None_iff)
  then show ?thesis by (simp add: CheckWin_find [OF assms(1,2,3)])
qed

theorem CheckWin_no_run_witness:
  "wf_board scenario_two \<and> (0 :: int) \<le> 1 \<and> 1 < boardWidth * boardWidth \<and>
   \<not> on_run scenario_two 1 (- 1, 0) \<and> \<not> on_run scenario_two 1 (0, - 1) \<and>
   \<not> on_run scenario_two 1 (- 1, - 1) \<and> \<not> on_run scenario_two 1 (- 1, 1) \<and>
   CheckWin scenario_two 1 = Some (Inr None)"
proof -
  have r: "\<not> on_run scenario_two 1 (- 1, 0)" "\<not> on_run scenario_two 1 (0, - 1)"
    "\<not> on_run scenario_two 1 (- 1, - 1)" "\<not> on_run scenario_two 1 (- 1, 1)"
    by code_simp+
  then have a: "\<forall>d \<in> set families. \<not> on_run scenario_two 1 d"
    by (simp add: families_def)
  have w: "wf_board scenario_two"
    by (simp add: wf_board_def scenario_two_def boardWidth_def)
  have i: "(0 :: int) \<le> 1" "1 < boardWidth * boardWidth" by (simp_all add: boardWidth_def)
  show ?thesis using CheckWin_no_run [OF w i a] w i r by simp
qed

text \<open>
  C1, as the code has it. For every board and every index of the board that lies on a
  run of its own piece of length at least \<open>piecesToWin\<close> along one of the four families,
  \<^verbatim>\<open>CheckWin\<close> returns a winning move. Its piece is the piece of the run, its position is
  the cell of the index that was passed (not the far end of the run), and its direction
  is the first family, in the order horizontal, vertical, diagonal, anti-diagonal, along
  which that cell lies on a long enough run.
\<close>

theorem CheckWin_on_run:
  assumes "wf_board board" and "0 \<le> idx" and "idx < boardWidth * boardWidth"
    and "d \<in> set families" and "on_run board idx d"
  shows "\<exists>wm. CheckWin board idx = Some (Inr (Some wm)) \<and>
              piece wm = board ! nat idx \<and>
              position wm = cell_of idx \<and>
              find (on_run board idx) families = Some (direction wm) \<and>
              on_run board idx (direction wm)"
proof -
  have "find (on_run board idx) families \<noteq> None"
  proof
    assume "find (on_run board idx) families = None"
    then have "\<not> (\<exists>x. x \<in> set families \<and> on_run board idx x)"
      unfolding find_None_iff .
    then show False using assms(4,5) by blast
  qed
  then obtain d' where d': "find (on_run board idx) families = Some d'" by blast
  then have "on_run board idx d'" by (auto simp: find_Some_iff)
  then show ?thesis using d' by (simp add: CheckWin_find [OF assms(1,2,3)])
qed

theorem CheckWin_on_run_witness:
  "wf_board scenario_three \<and> (0 :: int) \<le> 2 \<and> 2 < boardWidth * boardWidth \<and>
   (0, - 1) \<in> set families \<and>
   on_run scenario_three 2 (0, - 1) \<and>
   (\<exists>wm. CheckWin scenario_three 2 = Some (Inr (Some wm)) \<and>
         piece wm = scenario_three ! nat 2 \<and>
         position wm = cell_of 2 \<and>
         find (on_run scenario_three 2) families = Some (direction wm) \<and>
         on_run scenario_three 2 (direction wm))"
proof -
  have r: "on_run scenario_three 2 (0, - 1)" by code_simp
  have f: "(0, - 1) \<in> set families" by (simp add: families_def)
  have w: "wf_board scenario_three"
    by (simp add: wf_board_def scenario_three_def boardWidth_def)
  have i: "(0 :: int) \<le> 2" "2 < boardWidth * boardWidth" by (simp_all add: boardWidth_def)
  show ?thesis using CheckWin_on_run [OF w i f r] w i f r by simp
qed

text \<open>
  C1 as the specification states it fails: on the board with crosses in cells 0, 1, 2,
  the cell 2 lies on a run along \<open>(0, - 1)\<close>, \<^verbatim>\<open>CheckWin\<close> returns the position \<open>(0, 2)\<close>
  of the index it was given, and the next cell in the negative direction still belongs
  to the run, so the returned position is not the end of the run.
\<close>

theorem CheckWin_anchor_counterexample:
  "on_run scenario_three 2 (0, - 1) \<and>
   CheckWin scenario_three 2 =
     Some (Inr (Some \<lparr>piece = Cross, position = (0, 2), direction = (0, - 1)\<rparr>)) \<and>
   hit scenario_three Cross (shift (0, 2) 1 (0, - 1))"
  by code_simp

text \<open>
  C5, as the code has it. With two crosses in cells 0 and 1, \<^verbatim>\<open>CheckWin(board, 1)\<close> returns
  the empty optional. With the third cross in cell 2, \<^verbatim>\<open>CheckWin(board, 2)\<close> returns a
  winning move of piece cross whose position is \<open>(0, 2)\<close>, the cell just placed, and whose
  direction is \<open>(0, - 1)\<close>: cells 0, 1, 2 share \<open>x = 0\<close>, which the code calls vertical.
\<close>

theorem CheckWin_scenario:
  "CheckWin scenario_two 1 = Some (Inr None) \<and>
   CheckWin scenario_three 2 =
     Some (Inr (Some \<lparr>piece = Cross, position = (0, 2), direction = (0, - 1)\<rparr>))"
  by code_simp

text \<open>
  C5 as the specification states it fails: the direction returned for the second call
  is not in the \<open>(- 1, 0)\<close> family and the returned position is not cell 0.
\<close>

theorem CheckWin_scenario_counterexample:
  "CheckWin scenario_three 2 \<noteq>
     Some (Inr (Some \<lparr>piece = Cross, position = (0, 0), direction = (- 1, 0)\<rparr>)) \<and>
   CheckWin scenario_three 2 \<noteq>
     Some (Inr (Some \<lparr>piece = Cross, position = (0, 0), direction = (1, 0)\<rparr>)) \<and>
   CheckWin scenario_three 2 =
     Some (Inr (Some \<lparr>piece = Cross, position = (0, 2), direction = (0, - 1)\<rparr>))"
  by code_simp

section \<open>The search\<close>

text \<open>
  The loop of \<^verbatim>\<open>MiniMax\<close> that looks for an empty cell, with its \<^verbatim>\<open>break\<close>.
\<close>

function hasEmpty_loop :: "Board \<Rightarrow> int \<Rightarrow> bool result" where
  "hasEmpty_loop board i =
     (if i < boardWidth * boardWidth
      then (case board_at board i of
              Inl e \<Rightarrow> Some (Inl e)
            | Inr c \<Rightarrow> if c = None' then Some (Inr True) else hasEmpty_loop board (i + 1))
      else Some (Inr False))"
  by pat_completeness auto
termination
  by (relation "measure (\<lambda>(board, i). nat (boardWidth * boardWidth - i))") auto

text \<open>
  \<^verbatim>\<open>MiniMax\<close> takes the board by reference, writes the hypothetical move into it and
  writes \<^verbatim>\<open>EPiece::None\<close> back after the recursive call. The model threads the board:
  every function returns the score together with the board as the call leaves it, and
  each loop continues on the board that the recursive call handed back. \<open>MaxLoop\<close> and
  \<open>MinLoop\<close> are the two \<^verbatim>\<open>for\<close> loops, with the loop index and \<^verbatim>\<open>best\<close> as arguments;
  \<^verbatim>\<open>!isMax\<close> is \<open>False\<close> in the first loop and \<open>True\<close> in the second. The parameter
  \<^verbatim>\<open>depth\<close> is passed on and never read.
\<close>

function MiniMax :: "Board \<Rightarrow> int \<Rightarrow> int \<Rightarrow> bool \<Rightarrow> (int \<times> Board) result"
  and MaxLoop :: "Board \<Rightarrow> int \<Rightarrow> int \<Rightarrow> int \<Rightarrow> (int \<times> Board) result"
  and MinLoop :: "Board \<Rightarrow> int \<Rightarrow> int \<Rightarrow> int \<Rightarrow> (int \<times> Board) result"
where
  "MiniMax board depth placedPiece isMax =
     (case CheckWin board placedPiece of
        None \<Rightarrow> None
      | Some (Inl e) \<Rightarrow> Some (Inl e)
      | Some (Inr (Some winner)) \<Rightarrow>
          if piece winner = computerPiece then Some (Inr (1, board)) else Some (Inr (- 1, board))
      | Some (Inr None) \<Rightarrow>
          (case hasEmpty_loop board 0 of
             None \<Rightarrow> None
           | Some (Inl e) \<Rightarrow> Some (Inl e)
           | Some (Inr hasEmpty) \<Rightarrow>
               if \<not> hasEmpty then Some (Inr (0, board))
               else if isMax then MaxLoop board depth 0 (- 1000)
               else MinLoop board depth 0 1000))"
| "MaxLoop board depth i best =
     (if i < boardWidth * boardWidth
      then (case board_at board i of
              Inl e \<Rightarrow> Some (Inl e)
            | Inr c \<Rightarrow>
                if c = None'
                then (case MiniMax (board[nat i := computerPiece]) (depth + 1) i False of
                        None \<Rightarrow> None
                      | Some (Inl e) \<Rightarrow> Some (Inl e)
                      | Some (Inr (v, board')) \<Rightarrow>
                          MaxLoop (board'[nat i := None']) depth (i + 1) (max best v))
                else MaxLoop board depth (i + 1) best)
      else Some (Inr (best, board)))"
| "MinLoop board depth i best =
     (if i < boardWidth * boardWidth
      then (case board_at board i of
              Inl e \<Rightarrow> Some (Inl e)
            | Inr c \<Rightarrow>
                if c = None'
                then (case MiniMax (board[nat i := playerPiece]) (depth + 1) i True of
                        None \<Rightarrow> None
                      | Some (Inl e) \<Rightarrow> Some (Inl e)
                      | Some (Inr (v, board')) \<Rightarrow>
                          MinLoop (board'[nat i := None']) depth (i + 1) (min best v))
                else MinLoop board depth (i + 1) best)
      else Some (Inr (best, board)))"
  by pat_completeness auto

text \<open>
  Termination. The recursive call of a loop runs on the board that an earlier call
  returned, so the proof first shows, on the domain of the functions, that a call
  returns the board it was given; then every call inside a loop has one empty cell less.
\<close>

lemma count_list_update:
  "n < length xs \<Longrightarrow> xs ! n = a \<Longrightarrow> v \<noteq> a \<Longrightarrow>
   Suc (count_list (xs[n := v]) a) = count_list xs a"
proof (induction xs arbitrary: n)
  case Nil
  then show ?case by simp
next
  case (Cons x xs)
  then show ?case by (cases n) auto
qed

lemma board_at_Inr:
  "board_at board i = Inr c \<Longrightarrow> 0 \<le> i \<and> nat i < length board \<and> board ! nat i = c"
  by (auto simp: board_at_def split: if_splits)

lemma place_fewer_empty:
  assumes "board_at board i = Inr None'" and "c \<noteq> None'"
  shows "count_list (board[nat i := c]) None' < count_list board None'"
  using count_list_update [of "nat i" board None' c] board_at_Inr [OF assms(1)] assms(2)
  by simp

lemma restore_update:
  assumes "board_at board i = Inr None'"
  shows "(board[nat i := c])[nat i := None'] = board"
  using board_at_Inr [OF assms] by (simp add: list_update_same_conv)

lemma MiniMax_restores_dom:
  "MiniMax_MaxLoop_MinLoop_dom (Inl (board, depth, placedPiece, isMax)) \<Longrightarrow>
     \<forall>v b. MiniMax board depth placedPiece isMax = Some (Inr (v, b)) \<longrightarrow> b = board"
  "MiniMax_MaxLoop_MinLoop_dom (Inr (Inl (board, depth, i, best))) \<Longrightarrow>
     \<forall>v b. MaxLoop board depth i best = Some (Inr (v, b)) \<longrightarrow> b = board"
  "MiniMax_MaxLoop_MinLoop_dom (Inr (Inr (board, depth, i, best))) \<Longrightarrow>
     \<forall>v b. MinLoop board depth i best = Some (Inr (v, b)) \<longrightarrow> b = board"
proof (induct rule: MiniMax_MaxLoop_MinLoop.pinduct)
  case (1 board depth placedPiece isMax)
  have ihmax: "b = board"
    if "CheckWin board placedPiece = Some (Inr None)" "hasEmpty_loop board 0 = Some (Inr True)"
      "isMax" "MaxLoop board depth 0 (- 1000) = Some (Inr (v, b))" for v b
    using 1(2) [of "Inr None" None "Inr True" True] that by simp
  have ihmin: "b = board"
    if "CheckWin board placedPiece = Some (Inr None)" "hasEmpty_loop board 0 = Some (Inr True)"
      "\<not> isMax" "MinLoop board depth 0 1000 = Some (Inr (v, b))" for v b
    using 1(3) [of "Inr None" None "Inr True" True] that by simp
  show ?case
  proof (intro allI impI)
    fix v b
    assume r: "MiniMax board depth placedPiece isMax = Some (Inr (v, b))"
    note eq = MiniMax.psimps [OF 1(1)]
    show "b = board"
    proof (cases "CheckWin board placedPiece = Some (Inr None)")
      case False
      then show ?thesis using r unfolding eq
        by (simp split: option.splits sum.splits if_splits)
    next
      case win: True
      show ?thesis
      proof (cases "hasEmpty_loop board 0 = Some (Inr True)")
        case False
        then show ?thesis using r win unfolding eq
          by (simp split: option.splits sum.splits if_splits)
      next
        case True
        show ?thesis
        proof (cases isMax)
          case m: True
          then have "MaxLoop board depth 0 (- 1000) = Some (Inr (v, b))"
            using r win True unfolding eq by simp
          then show ?thesis using ihmax win True m by blast
        next
          case m: False
          then have "MinLoop board depth 0 1000 = Some (Inr (v, b))"
            using r win True unfolding eq by simp
          then show ?thesis using ihmin win True m by blast
        qed
      qed
    qed
  qed
next
  case (2 board depth i best)
  show ?case
  proof (intro allI impI)
    fix v b
    assume r: "MaxLoop board depth i best = Some (Inr (v, b))"
    show "b = board"
    proof (cases "i < boardWidth * boardWidth")
      case False
      then show ?thesis using r unfolding MaxLoop.psimps [OF 2(1)] by simp
    next
      case True
      show ?thesis
      proof (cases "board_at board i")
        case (Inl e)
        then show ?thesis using r True unfolding MaxLoop.psimps [OF 2(1)] by simp
      next
        case (Inr c)
        show ?thesis
        proof (cases "c = None'")
          case False
          then have "MaxLoop board depth (i + 1) best = Some (Inr (v, b))"
            using r True Inr unfolding MaxLoop.psimps [OF 2(1)] by simp
          then show ?thesis using 2(4) [OF True Inr False] by blast
        next
          case empty: True
          let ?call = "MiniMax (board[nat i := computerPiece]) (depth + 1) i False"
          from r True Inr empty obtain v' b' where
            call: "?call = Some (Inr (v', b'))" and
            rest: "MaxLoop (b'[nat i := None']) depth (i + 1) (max best v') = Some (Inr (v, b))"
            unfolding MaxLoop.psimps [OF 2(1)]
            by (auto split: option.splits sum.splits)
          have "b' = board[nat i := computerPiece]"
            using 2(2) [OF True Inr empty] call by blast
          then have restored: "b'[nat i := None'] = board"
            using restore_update Inr empty by simp
          have "b = b'[nat i := None']"
            using 2(3) [OF True Inr empty call refl refl] rest by blast
          then show ?thesis using restored by simp
        qed
      qed
    qed
  qed
next
  case (3 board depth i best)
  show ?case
  proof (intro allI impI)
    fix v b
    assume r: "MinLoop board depth i best = Some (Inr (v, b))"
    show "b = board"
    proof (cases "i < boardWidth * boardWidth")
      case False
      then show ?thesis using r unfolding MinLoop.psimps [OF 3(1)] by simp
    next
      case True
      show ?thesis
      proof (cases "board_at board i")
        case (Inl e)
        then show ?thesis using r True unfolding MinLoop.psimps [OF 3(1)] by simp
      next
        case (Inr c)
        show ?thesis
        proof (cases "c = None'")
          case False
          then have "MinLoop board depth (i + 1) best = Some (Inr (v, b))"
            using r True Inr unfolding MinLoop.psimps [OF 3(1)] by simp
          then show ?thesis using 3(4) [OF True Inr False] by blast
        next
          case empty: True
          let ?call = "MiniMax (board[nat i := playerPiece]) (depth + 1) i True"
          from r True Inr empty obtain v' b' where
            call: "?call = Some (Inr (v', b'))" and
            rest: "MinLoop (b'[nat i := None']) depth (i + 1) (min best v') = Some (Inr (v, b))"
            unfolding MinLoop.psimps [OF 3(1)]
            by (auto split: option.splits sum.splits)
          have "b' = board[nat i := playerPiece]"
            using 3(2) [OF True Inr empty] call by blast
          then have restored: "b'[nat i := None'] = board"
            using restore_update Inr empty by simp
          have "b = b'[nat i := None']"
            using 3(3) [OF True Inr empty call refl refl] rest by blast
          then show ?thesis using restored by simp
        qed
      qed
    qed
  qed
qed

lemma pieces_not_empty: "computerPiece \<noteq> None'" "playerPiece \<noteq> None'"
  by (simp_all add: computerPiece_def playerPiece_def)

lemma MiniMax_total: "All MiniMax_MaxLoop_MinLoop_dom"
proof (rule "MiniMax_MaxLoop_MinLoop.termination" [where R =
    "inv_image (less_than <*lex*> less_than <*lex*> less_than)
     (\<lambda>x. case x of
        Inl (board, depth, p, m) \<Rightarrow> (count_list board None', 1, 0)
      | Inr (Inl (board, depth, i, best)) \<Rightarrow>
          (count_list board None', 0, nat (boardWidth * boardWidth - i))
      | Inr (Inr (board, depth, i, best)) \<Rightarrow>
          (count_list board None', 0, nat (boardWidth * boardWidth - i)))"], goal_cases)
  case 1
  show ?case by (intro wf_inv_image wf_lex_prod wf_less_than)
next
  case 2 then show ?case by simp
next
  case 3 then show ?case by simp
next
  case (4 board depth i best c)
  then show ?case by (simp add: place_fewer_empty pieces_not_empty)
next
  case (5 board depth i best c x2 ba v b')
  then have "b' = board[nat i := computerPiece]"
    using MiniMax_restores_dom(1) by blast
  then have "b'[nat i := None'] = board" using 5 restore_update by simp
  then show ?case using 5 by simp
next
  case (6 board depth i best c)
  then show ?case by simp
next
  case (7 board depth i best c)
  then show ?case by (simp add: place_fewer_empty pieces_not_empty)
next
  case (8 board depth i best c x2 ba v b')
  then have "b' = board[nat i := playerPiece]"
    using MiniMax_restores_dom(1) by blast
  then have "b'[nat i := None'] = board" using 8 restore_update by simp
  then show ?case using 8 by simp
next
  case (9 board depth i best c)
  then show ?case by simp
qed

termination MiniMax
  by (rule MiniMax_total)

lemma MiniMax_restores:
  "MiniMax board depth placedPiece isMax = Some (Inr (v, b)) \<Longrightarrow> b = board"
proof -
  have "MiniMax_MaxLoop_MinLoop_dom (Inl (board, depth, placedPiece, isMax))"
    using MiniMax_total by (rule allE)
  then show "MiniMax board depth placedPiece isMax = Some (Inr (v, b)) \<Longrightarrow> b = board"
    using MiniMax_restores_dom(1) by blast
qed


section \<open>The score as a function of the board\<close>

text \<open>
  \<open>score\<close> is the value \<^verbatim>\<open>MiniMax\<close> computes, written without the board updates:
  \<open>empties board i\<close> are the indices of the empty cells from \<open>i\<close> on, in ascending
  order, and the loops are folds over them. It is used to reason about \<^verbatim>\<open>MiniMax\<close>
  (lemma \<open>MiniMax_score\<close>).
\<close>

definition empties :: "Board \<Rightarrow> nat \<Rightarrow> nat list" where
  "empties board i = filter (\<lambda>j. board ! j = None') [i..<nat (boardWidth * boardWidth)]"

function score :: "Board \<Rightarrow> int \<Rightarrow> bool \<Rightarrow> int" where
  "score board placedPiece isMax =
     (case CheckWin board placedPiece of
        Some (Inr (Some winner)) \<Rightarrow> if piece winner = computerPiece then 1 else - 1
      | _ \<Rightarrow>
          if \<not> wf_board board \<or> empties board 0 = [] then 0
          else if isMax
          then fold (\<lambda>j best. max best (score (board[j := computerPiece]) (int j) False))
                 (empties board 0) (- 1000)
          else fold (\<lambda>j best. min best (score (board[j := playerPiece]) (int j) True))
                 (empties board 0) 1000)"
  by pat_completeness auto

lemma empties_place:
  assumes "wf_board board" "j \<in> set (empties board i)" "c \<noteq> None'"
  shows "count_list (board[j := c]) None' < count_list board None'"
proof -
  have "j < length board" "board ! j = None'"
    using assms(1,2) by (auto simp: empties_def wf_board_def)
  then show ?thesis using count_list_update [of j board None' c] assms(3) by simp
qed

termination score
  by (relation "measure (\<lambda>(board, p, m). count_list board None')")
     (auto simp: empties_place pieces_not_empty)

lemma wf_board_update: "wf_board board \<Longrightarrow> wf_board (board[j := c])"
  by (simp add: wf_board_def)

lemma board_at_wf:
  assumes "wf_board board" "0 \<le> i" "i < boardWidth * boardWidth"
  shows "board_at board i = Inr (board ! nat i)"
  using assms by (simp add: board_at_def wf_board_def)

lemma empties_step:
  assumes "0 \<le> i" "i < boardWidth * boardWidth"
  shows "empties board (nat i) =
         (if board ! nat i = None' then nat i # empties board (nat (i + 1))
          else empties board (nat (i + 1)))"
proof -
  have "nat i < nat (boardWidth * boardWidth)" using assms by simp
  then have "[nat i..<nat (boardWidth * boardWidth)] =
      nat i # [nat (i + 1)..<nat (boardWidth * boardWidth)]"
    using assms(1) by (simp add: upt_conv_Cons nat_add_distrib)
  then show ?thesis by (simp add: empties_def)
qed

lemma empties_end:
  assumes "\<not> i < boardWidth * boardWidth"
  shows "empties board (nat i) = []"
  using assms by (simp add: empties_def)

lemma hasEmpty_loop_empties:
  "wf_board board \<Longrightarrow> 0 \<le> i \<Longrightarrow>
   hasEmpty_loop board i = Some (Inr (empties board (nat i) \<noteq> []))"
proof (induction board i rule: hasEmpty_loop.induct)
  case (1 board i)
  show ?case
  proof (cases "i < boardWidth * boardWidth")
    case False
    then show ?thesis by (simp add: empties_end)
  next
    case True
    note at = board_at_wf [OF "1.prems"(1,2) True]
    show ?thesis
    proof (cases "board ! nat i = None'")
      case empty: True
      then show ?thesis using True at by (simp add: empties_step [OF "1.prems"(2) True])
    next
      case False
      then have "hasEmpty_loop board (i + 1) = Some (Inr (empties board (nat (i + 1)) \<noteq> []))"
        using "1.IH" [OF True at False] "1.prems" by simp
      then show ?thesis using True at False
        by (simp add: empties_step [OF "1.prems"(2) True])
    qed
  qed
qed

lemma CheckWin_returns:
  assumes "wf_board board" "0 \<le> p" "p < boardWidth * boardWidth"
  shows "\<exists>w. CheckWin board p = Some (Inr w)"
  using CheckWin_find [OF assms] by blast

declare MiniMax.simps [simp del] MaxLoop.simps [simp del] MinLoop.simps [simp del]
declare score.simps [simp del] hasEmpty_loop.simps [simp del]

definition max_step :: "Board \<Rightarrow> nat \<Rightarrow> int \<Rightarrow> int" where
  "max_step board j best = max best (score (board[j := computerPiece]) (int j) False)"

definition min_step :: "Board \<Rightarrow> nat \<Rightarrow> int \<Rightarrow> int" where
  "min_step board j best = min best (score (board[j := playerPiece]) (int j) True)"

lemma score_unfold:
  "score board placedPiece isMax =
     (case CheckWin board placedPiece of
        Some (Inr (Some winner)) \<Rightarrow> if piece winner = computerPiece then 1 else - 1
      | _ \<Rightarrow>
          if \<not> wf_board board \<or> empties board 0 = [] then 0
          else if isMax then fold (max_step board) (empties board 0) (- 1000)
          else fold (min_step board) (empties board 0) 1000)"
proof -
  have a: "max_step board = (\<lambda>j best. max best (score (board[j := computerPiece]) (int j) False))"
    by (intro ext) (simp add: max_step_def)
  have b: "min_step board = (\<lambda>j best. min best (score (board[j := playerPiece]) (int j) True))"
    by (intro ext) (simp add: min_step_def)
  show ?thesis unfolding a b by (rule score.simps)
qed

lemma MiniMax_score:
  "wf_board board \<Longrightarrow> 0 \<le> placedPiece \<Longrightarrow> placedPiece < boardWidth * boardWidth \<Longrightarrow>
     MiniMax board depth placedPiece isMax = Some (Inr (score board placedPiece isMax, board))"
  "wf_board board \<Longrightarrow> 0 \<le> i \<Longrightarrow>
     MaxLoop board depth i best =
       Some (Inr (fold (max_step board) (empties board (nat i)) best, board))"
  "wf_board board \<Longrightarrow> 0 \<le> i \<Longrightarrow>
     MinLoop board depth i best =
       Some (Inr (fold (min_step board) (empties board (nat i)) best, board))"
proof (induction board depth placedPiece isMax and board depth i best and board depth i best
    rule: MiniMax_MaxLoop_MinLoop.induct)
  case (1 board depth placedPiece isMax)
  obtain w where w: "CheckWin board placedPiece = Some (Inr w)"
    using CheckWin_returns [OF "1.prems"] by blast
  have he: "hasEmpty_loop board 0 = Some (Inr (empties board 0 \<noteq> []))"
    using hasEmpty_loop_empties [OF "1.prems"(1), of 0] by simp
  show ?case
  proof (cases w)
    case (Some winner)
    then show ?thesis using w
      by (simp add: MiniMax.simps [of board] score_unfold [of board])
  next
    case None
    show ?thesis
    proof (cases "empties board 0 = []")
      case True
      then show ?thesis using w None he "1.prems"(1)
        by (simp add: MiniMax.simps [of board] score_unfold [of board])
    next
      case False
      show ?thesis
      proof (cases isMax)
        case True
        have "MaxLoop board depth 0 (- 1000) =
            Some (Inr (fold (max_step board) (empties board (nat 0)) (- 1000), board))"
          using "1.IH"(1) [OF w refl None he refl _ True] False "1.prems"(1) by simp
        then show ?thesis using w None he False True "1.prems"(1)
          by (simp add: MiniMax.simps [of board] score_unfold [of board])
      next
        case notmax: False
        have "MinLoop board depth 0 1000 =
            Some (Inr (fold (min_step board) (empties board (nat 0)) 1000, board))"
          using "1.IH"(2) [OF w refl None he refl _ notmax] False "1.prems"(1) by simp
        then show ?thesis using w None he False notmax "1.prems"(1)
          by (simp add: MiniMax.simps [of board] score_unfold [of board])
      qed
    qed
  qed
next
  case (2 board depth i best)
  show ?case
  proof (cases "i < boardWidth * boardWidth")
    case False
    then show ?thesis by (simp add: MaxLoop.simps [of board] empties_end)
  next
    case True
    note at = board_at_wf [OF "2.prems" True]
    note es = empties_step [OF "2.prems"(2) True, of board]
    show ?thesis
    proof (cases "board ! nat i = None'")
      case False
      have "MaxLoop board depth (i + 1) best =
          Some (Inr (fold (max_step board) (empties board (nat (i + 1))) best, board))"
        using "2.IH"(3) [OF True at False] "2.prems" by simp
      then show ?thesis using True at False es
        by (simp add: MaxLoop.simps [of board depth i])
    next
      case empty: True
      let ?b = "board[nat i := computerPiece]"
      have call: "MiniMax ?b (depth + 1) i False = Some (Inr (score ?b i False, ?b))"
        using "2.IH"(1) [OF True at empty] "2.prems" True wf_board_update by simp
      have restored: "?b[nat i := None'] = board"
        using restore_update [of board i computerPiece] at empty by simp
      have "MaxLoop (?b[nat i := None']) depth (i + 1) (max best (score ?b i False)) =
          Some (Inr (fold (max_step (?b[nat i := None']))
            (empties (?b[nat i := None']) (nat (i + 1))) (max best (score ?b i False)),
            ?b[nat i := None']))"
        using "2.IH"(2) [OF True at empty call refl refl] "2.prems" restored by simp
      then have "MaxLoop board depth (i + 1) (max best (score ?b i False)) =
          Some (Inr (fold (max_step board) (empties board (nat (i + 1)))
            (max best (score ?b i False)), board))"
        unfolding restored .
      moreover have "max_step board (nat i) best = max best (score ?b i False)"
        using "2.prems"(2) by (simp add: max_step_def)
      ultimately show ?thesis using True at empty es call restored
        by (simp add: MaxLoop.simps [of board depth i])
    qed
  qed
next
  case (3 board depth i best)
  show ?case
  proof (cases "i < boardWidth * boardWidth")
    case False
    then show ?thesis by (simp add: MinLoop.simps [of board] empties_end)
  next
    case True
    note at = board_at_wf [OF "3.prems" True]
    note es = empties_step [OF "3.prems"(2) True, of board]
    show ?thesis
    proof (cases "board ! nat i = None'")
      case False
      have "MinLoop board depth (i + 1) best =
          Some (Inr (fold (min_step board) (empties board (nat (i + 1))) best, board))"
        using "3.IH"(3) [OF True at False] "3.prems" by simp
      then show ?thesis using True at False es
        by (simp add: MinLoop.simps [of board depth i])
    next
      case empty: True
      let ?b = "board[nat i := playerPiece]"
      have call: "MiniMax ?b (depth + 1) i True = Some (Inr (score ?b i True, ?b))"
        using "3.IH"(1) [OF True at empty] "3.prems" True wf_board_update by simp
      have restored: "?b[nat i := None'] = board"
        using restore_update [of board i playerPiece] at empty by simp
      have "MinLoop (?b[nat i := None']) depth (i + 1) (min best (score ?b i True)) =
          Some (Inr (fold (min_step (?b[nat i := None']))
            (empties (?b[nat i := None']) (nat (i + 1))) (min best (score ?b i True)),
            ?b[nat i := None']))"
        using "3.IH"(2) [OF True at empty call refl refl] "3.prems" restored by simp
      then have "MinLoop board depth (i + 1) (min best (score ?b i True)) =
          Some (Inr (fold (min_step board) (empties board (nat (i + 1)))
            (min best (score ?b i True)), board))"
        unfolding restored .
      moreover have "min_step board (nat i) best = min best (score ?b i True)"
        using "3.prems"(2) by (simp add: min_step_def)
      ultimately show ?thesis using True at empty es call restored
        by (simp add: MinLoop.simps [of board depth i])
    qed
  qed
qed



section \<open>Choosing the move\<close>

text \<open>
  \<^verbatim>\<open>FindBestMove\<close> takes its board by value and scans the cells in ascending order; the
  loop is \<open>FindBestMove_loop\<close> with \<^verbatim>\<open>bestVal\<close> and \<^verbatim>\<open>bestMove\<close> as arguments. The
  parameter \<^verbatim>\<open>piece\<close> is called \<open>mover\<close> here, \<open>piece\<close> being a field of \<open>WinningMove\<close>.
\<close>

function FindBestMove_loop :: "Board \<Rightarrow> EPiece \<Rightarrow> int \<Rightarrow> int \<Rightarrow> int \<Rightarrow> int result" where
  "FindBestMove_loop board mover i bestVal bestMove =
     (if i < boardWidth * boardWidth
      then (case board_at board i of
              Inl e \<Rightarrow> Some (Inl e)
            | Inr c \<Rightarrow>
                if c = None'
                then (case MiniMax (board[nat i := mover]) 0 i False of
                        None \<Rightarrow> None
                      | Some (Inl e) \<Rightarrow> Some (Inl e)
                      | Some (Inr (moveVal, board')) \<Rightarrow>
                          if moveVal > bestVal
                          then FindBestMove_loop (board'[nat i := None']) mover (i + 1) moveVal i
                          else FindBestMove_loop (board'[nat i := None']) mover (i + 1)
                                 bestVal bestMove)
                else FindBestMove_loop board mover (i + 1) bestVal bestMove)
      else Some (Inr bestMove))"
  by pat_completeness auto
termination
  by (relation "measure (\<lambda>(board, mover, i, bestVal, bestMove).
        nat (boardWidth * boardWidth - i))") auto

declare FindBestMove_loop.simps [simp del]

definition FindBestMove :: "Board \<Rightarrow> EPiece \<Rightarrow> int result" where
  "FindBestMove board mover = FindBestMove_loop board mover 0 (- 1000) (- 1)"


text \<open>
  \<open>moveVal board mover j\<close> is the value \<^verbatim>\<open>moveVal\<close> that the loop of \<^verbatim>\<open>FindBestMove\<close>
  computes for the cell \<open>j\<close>; \<open>scan_step\<close> is one round of the loop on a cell that is
  empty, as a function of the pair \<^verbatim>\<open>(bestVal, bestMove)\<close>.
\<close>

definition moveVal :: "Board \<Rightarrow> EPiece \<Rightarrow> nat \<Rightarrow> int option" where
  "moveVal board mover j =
     (case MiniMax (board[j := mover]) 0 (int j) False of
        Some (Inr (v, b)) \<Rightarrow> Some v
      | _ \<Rightarrow> None)"

definition scan_step :: "(nat \<Rightarrow> int) \<Rightarrow> nat \<Rightarrow> int \<times> int \<Rightarrow> int \<times> int" where
  "scan_step f j s = (if f j > fst s then (f j, int j) else s)"

lemma scan_first_max:
  assumes "sorted_wrt (<) js" and "fold (scan_step f) js (bv, bm) = (v, k)"
  shows "(k = bm \<and> v = bv \<and> (\<forall>j \<in> set js. f j \<le> bv)) \<or>
         (\<exists>n \<in> set js. k = int n \<and> v = f n \<and> bv < f n \<and>
            (\<forall>j \<in> set js. f j \<le> f n \<and> (j < n \<longrightarrow> f j < f n)))"
  using assms
proof (induction js arbitrary: bv bm)
  case Nil
  then show ?case by simp
next
  case (Cons x xs)
  have sorted: "sorted_wrt (<) xs" and above: "\<forall>j \<in> set xs. x < j"
    using Cons.prems(1) by auto
  show ?case
  proof (cases "f x > bv")
    case True
    then have "scan_step f x (bv, bm) = (f x, int x)" by (simp add: scan_step_def)
    then have run: "fold (scan_step f) xs (f x, int x) = (v, k)"
      using Cons.prems(2) by simp
    from Cons.IH [OF sorted run] show ?thesis
    proof (elim disjE conjE bexE)
      assume "k = int x" "v = f x" "\<forall>j \<in> set xs. f j \<le> f x"
      then have "x \<in> set (x # xs) \<and> k = int x \<and> v = f x \<and> bv < f x \<and>
          (\<forall>j \<in> set (x # xs). f j \<le> f x \<and> (j < x \<longrightarrow> f j < f x))"
        using True above by auto
      then show ?thesis by blast
    next
      fix n assume n: "n \<in> set xs" "k = int n" "v = f n" "f x < f n"
        "\<forall>j \<in> set xs. f j \<le> f n \<and> (j < n \<longrightarrow> f j < f n)"
      then have "n \<in> set (x # xs) \<and> k = int n \<and> v = f n \<and> bv < f n \<and>
          (\<forall>j \<in> set (x # xs). f j \<le> f n \<and> (j < n \<longrightarrow> f j < f n))"
        using True by auto
      then show ?thesis by blast
    qed
  next
    case False
    then have "scan_step f x (bv, bm) = (bv, bm)" by (simp add: scan_step_def)
    then have run: "fold (scan_step f) xs (bv, bm) = (v, k)"
      using Cons.prems(2) by simp
    from Cons.IH [OF sorted run] show ?thesis
    proof (elim disjE conjE bexE)
      assume "k = bm" "v = bv" "\<forall>j \<in> set xs. f j \<le> bv"
      then show ?thesis using False by auto
    next
      fix n assume n: "n \<in> set xs" "k = int n" "v = f n" "bv < f n"
        "\<forall>j \<in> set xs. f j \<le> f n \<and> (j < n \<longrightarrow> f j < f n)"
      then have "n \<in> set (x # xs) \<and> k = int n \<and> v = f n \<and> bv < f n \<and>
          (\<forall>j \<in> set (x # xs). f j \<le> f n \<and> (j < n \<longrightarrow> f j < f n))"
        using False by auto
      then show ?thesis by blast
    qed
  qed
qed

lemma FindBestMove_loop_scan:
  "wf_board board \<Longrightarrow> 0 \<le> i \<Longrightarrow>
   FindBestMove_loop board mover i bestVal bestMove =
     Some (Inr (snd (fold (scan_step (\<lambda>j. score (board[j := mover]) (int j) False))
                      (empties board (nat i)) (bestVal, bestMove))))"
proof (induction board mover i bestVal bestMove rule: FindBestMove_loop.induct)
  case (1 board mover i bestVal bestMove)
  let ?f = "\<lambda>j. score (board[j := mover]) (int j) False"
  show ?case
  proof (cases "i < boardWidth * boardWidth")
    case False
    then show ?thesis by (simp add: FindBestMove_loop.simps [of board] empties_end)
  next
    case True
    note at = board_at_wf [OF "1.prems" True]
    note es = empties_step [OF "1.prems"(2) True, of board]
    show ?thesis
    proof (cases "board ! nat i = None'")
      case False
      then show ?thesis
        using "1.IH"(3) [OF True at False] "1.prems" True at es
        by (simp add: FindBestMove_loop.simps [of board mover i])
    next
      case empty: True
      let ?b = "board[nat i := mover]"
      have call: "MiniMax ?b 0 i False = Some (Inr (score ?b i False, ?b))"
        using MiniMax_score(1) [OF wf_board_update [OF "1.prems"(1)] "1.prems"(2) True] .
      have restored: "?b[nat i := None'] = board"
        using restore_update [of board i mover] at empty by simp
      have fi: "?f (nat i) = score ?b i False" using "1.prems"(2) by simp
      show ?thesis
      proof (cases "score ?b i False > bestVal")
        case better: True
        have "FindBestMove_loop (?b[nat i := None']) mover (i + 1) (score ?b i False) i =
            Some (Inr (snd (fold (scan_step (\<lambda>j. score ((?b[nat i := None'])[j := mover]) (int j) False))
               (empties (?b[nat i := None']) (nat (i + 1))) (score ?b i False, i))))"
          using "1.IH"(1) [OF True at empty call refl refl better] "1.prems" restored by simp
        then have "FindBestMove_loop board mover (i + 1) (score ?b i False) i =
            Some (Inr (snd (fold (scan_step ?f) (empties board (nat (i + 1))) (score ?b i False, i))))"
          unfolding restored .
        moreover have "scan_step ?f (nat i) (bestVal, bestMove) = (score ?b i False, i)"
          using better "1.prems"(2) unfolding scan_step_def fi by simp
        ultimately show ?thesis using True at empty es call restored better
          by (simp add: FindBestMove_loop.simps [of board mover i])
      next
        case worse: False
        have "FindBestMove_loop (?b[nat i := None']) mover (i + 1) bestVal bestMove =
            Some (Inr (snd (fold (scan_step (\<lambda>j. score ((?b[nat i := None'])[j := mover]) (int j) False))
               (empties (?b[nat i := None']) (nat (i + 1))) (bestVal, bestMove))))"
          using "1.IH"(2) [OF True at empty call refl refl worse] "1.prems" restored by simp
        then have "FindBestMove_loop board mover (i + 1) bestVal bestMove =
            Some (Inr (snd (fold (scan_step ?f) (empties board (nat (i + 1))) (bestVal, bestMove))))"
          unfolding restored .
        moreover have "scan_step ?f (nat i) (bestVal, bestMove) = (bestVal, bestMove)"
          using worse unfolding scan_step_def fi by simp
        ultimately show ?thesis using True at empty es call restored worse
          by (simp add: FindBestMove_loop.simps [of board mover i])
      qed
    qed
  qed
qed


lemma fold_max_ge_iff:
  "t \<le> fold (\<lambda>j best. max best (f j)) js (b0 :: int) \<longleftrightarrow> t \<le> b0 \<or> (\<exists>j \<in> set js. t \<le> f j)"
  by (induction js arbitrary: b0) auto

lemma fold_max_le_iff:
  "fold (\<lambda>j best. max best (f j)) js (b0 :: int) \<le> t \<longleftrightarrow> b0 \<le> t \<and> (\<forall>j \<in> set js. f j \<le> t)"
  by (induction js arbitrary: b0) auto

lemma fold_min_le_iff:
  "fold (\<lambda>j best. min best (f j)) js (b0 :: int) \<le> t \<longleftrightarrow> b0 \<le> t \<or> (\<exists>j \<in> set js. f j \<le> t)"
  by (induction js arbitrary: b0) auto

lemma fold_min_ge_iff:
  "t \<le> fold (\<lambda>j best. min best (f j)) js (b0 :: int) \<longleftrightarrow> t \<le> b0 \<and> (\<forall>j \<in> set js. t \<le> f j)"
  by (induction js arbitrary: b0) auto

lemma max_step_eq:
  "max_step board = (\<lambda>j best. max best (score (board[j := computerPiece]) (int j) False))"
  by (intro ext) (simp add: max_step_def)

lemma min_step_eq:
  "min_step board = (\<lambda>j best. min best (score (board[j := playerPiece]) (int j) True))"
  by (intro ext) (simp add: min_step_def)

lemma score_bounds: "- 1 \<le> score board p m \<and> score board p m \<le> 1"
proof (induction "count_list board None'" arbitrary: board p m rule: less_induct)
  case less
  show ?case
  proof (cases "\<exists>winner. CheckWin board p = Some (Inr (Some winner))")
    case True
    then show ?thesis by (auto simp: score_unfold [of board p m])
  next
    case nowin: False
    show ?thesis
    proof (cases "\<not> wf_board board \<or> empties board 0 = []")
      case True
      then show ?thesis using nowin
        by (auto simp: score_unfold [of board p m] split: option.splits sum.splits)
    next
      case False
      then have wf: "wf_board board" and ne: "empties board 0 \<noteq> []" by simp_all
      have ih: "- 1 \<le> score (board[j := c]) q m' \<and> score (board[j := c]) q m' \<le> 1"
        if "j \<in> set (empties board 0)" "c \<noteq> None'" for j c q m'
        using less [OF empties_place [OF wf that]] .
      obtain j0 where j0: "j0 \<in> set (empties board 0)" using ne by (cases "empties board 0") auto
      have eq: "score board p m =
          (if m then fold (max_step board) (empties board 0) (- 1000)
           else fold (min_step board) (empties board 0) 1000)"
        using nowin False
        by (auto simp: score_unfold [of board p m] split: option.splits sum.splits)
      show ?thesis
      proof (cases m)
        case True
        have "- 1 \<le> fold (max_step board) (empties board 0) (- 1000)"
          unfolding max_step_eq fold_max_ge_iff using ih [OF j0 pieces_not_empty(1)] j0 by blast
        moreover have "fold (max_step board) (empties board 0) (- 1000) \<le> 1"
          unfolding max_step_eq fold_max_le_iff using ih [OF _ pieces_not_empty(1)] by simp
        ultimately show ?thesis using eq True by simp
      next
        case False
        have "fold (min_step board) (empties board 0) 1000 \<le> 1"
          unfolding min_step_eq fold_min_le_iff using ih [OF j0 pieces_not_empty(2)] j0 by blast
        moreover have "- 1 \<le> fold (min_step board) (empties board 0) 1000"
          unfolding min_step_eq fold_min_ge_iff using ih [OF _ pieces_not_empty(2)] by simp
        ultimately show ?thesis using eq False by simp
      qed
    qed
  qed
qed

lemma set_empties:
  "wf_board board \<Longrightarrow> set (empties board 0) = {j. j < length board \<and> board ! j = None'}"
  by (auto simp: empties_def wf_board_def)

lemma sorted_empties: "sorted_wrt (<) (empties board i)"
  by (simp add: empties_def sorted_wrt_filter)

lemma moveVal_score:
  assumes "wf_board board" "j < length board"
  shows "moveVal board mover j = Some (score (board[j := mover]) (int j) False)"
proof -
  have "int j < boardWidth * boardWidth" using assms by (simp add: wf_board_def)
  then show ?thesis
    using MiniMax_score(1) [OF wf_board_update [OF assms(1)], of "int j" j mover 0 False]
    by (simp add: moveVal_def)
qed

lemma FindBestMove_scan:
  assumes "wf_board board"
  shows "FindBestMove board mover =
     Some (Inr (snd (fold (scan_step (\<lambda>j. score (board[j := mover]) (int j) False))
                      (empties board 0) (- 1000, - 1))))"
  using FindBestMove_loop_scan [OF assms, of 0 mover "- 1000" "- 1"]
  by (simp add: FindBestMove_def)

definition late_board :: Board where
  "late_board = [Cricle, Cross, Cross, Cross, Cricle, None', Cross, Cricle, None']"

definition full_board :: Board where
  "full_board = [Cross, Cricle, Cross, Cross, Cricle, Cricle, Cricle, Cross, Cross]"

lemma FindBestMove_first_empty:
  assumes "wf_board board" and "None' \<in> set board"
  shows "\<exists>k vk. FindBestMove board mover = Some (Inr (int k)) \<and>
           k < length board \<and> board ! k = None' \<and> moveVal board mover k = Some vk \<and>
           (\<forall>j < length board. board ! j = None' \<longrightarrow>
              (\<exists>vj. moveVal board mover j = Some vj \<and> vj \<le> vk \<and> (j < k \<longrightarrow> vj < vk)))"
proof -
  let ?f = "\<lambda>j. score (board[j := mover]) (int j) False"
  let ?js = "empties board 0"
  obtain v k where vk: "fold (scan_step ?f) ?js (- 1000, - 1) = (v, k)"
    by (cases "fold (scan_step ?f) ?js (- 1000, - 1)") blast
  obtain j0 where j0: "j0 \<in> set ?js"
    using assms by (auto simp: set_empties in_set_conv_nth)
  have "\<not> ?f j0 \<le> - 1000" using score_bounds [of "board[j0 := mover]" "int j0" False] by simp
  then have "\<not> (\<forall>j \<in> set ?js. ?f j \<le> - 1000)" using j0 by blast
  then obtain n where n: "n \<in> set ?js" "k = int n"
      "\<forall>j \<in> set ?js. ?f j \<le> ?f n \<and> (j < n \<longrightarrow> ?f j < ?f n)"
    using scan_first_max [OF sorted_empties vk] by blast
  have nb: "n < length board" "board ! n = None'"
    using n(1) by (simp_all add: set_empties [OF assms(1)])
  have "FindBestMove board mover = Some (Inr (int n))"
    using FindBestMove_scan [OF assms(1), of mover] vk n(2) by simp
  moreover have "\<exists>vj. moveVal board mover j = Some vj \<and> vj \<le> ?f n \<and> (j < n \<longrightarrow> vj < ?f n)"
    if "j < length board" "board ! j = None'" for j
  proof -
    have "j \<in> set ?js" using that by (simp add: set_empties [OF assms(1)])
    then show ?thesis using n(3) moveVal_score [OF assms(1) that(1), of mover] by blast
  qed
  ultimately show ?thesis
    using nb moveVal_score [OF assms(1) nb(1), of mover] by blast
qed


text \<open>
  C3. For every board with at least one empty cell and every piece to move,
  \<^verbatim>\<open>FindBestMove\<close> returns an empty cell \<open>k\<close> whose \<^verbatim>\<open>MiniMax\<close> score is the maximum over
  all empty cells, and every empty cell before \<open>k\<close> has a strictly smaller score: \<open>k\<close> is
  the first index that reaches the maximum.
\<close>

theorem FindBestMove_first_maximum:
  assumes "wf_board board" and "None' \<in> set board"
  shows "\<exists>k vk. FindBestMove board mover = Some (Inr (int k)) \<and>
           k < length board \<and> board ! k = None' \<and> moveVal board mover k = Some vk \<and>
           (\<forall>j < length board. board ! j = None' \<longrightarrow>
              (\<exists>vj. moveVal board mover j = Some vj \<and> vj \<le> vk \<and> (j < k \<longrightarrow> vj < vk)))"
  using assms by (rule FindBestMove_first_empty)

theorem FindBestMove_first_maximum_witness:
  "wf_board late_board \<and> None' \<in> set late_board \<and>
   (\<exists>k vk. FindBestMove late_board computerPiece = Some (Inr (int k)) \<and>
      k < length late_board \<and> late_board ! k = None' \<and>
      moveVal late_board computerPiece k = Some vk \<and>
      (\<forall>j < length late_board. late_board ! j = None' \<longrightarrow>
         (\<exists>vj. moveVal late_board computerPiece j = Some vj \<and> vj \<le> vk \<and>
               (j < k \<longrightarrow> vj < vk))))"
proof -
  have w: "wf_board late_board" by (simp add: wf_board_def late_board_def boardWidth_def)
  have e: "None' \<in> set late_board" by (simp add: late_board_def)
  show ?thesis using FindBestMove_first_maximum [OF w e, of computerPiece] w e by simp
qed

text \<open>
  C4. On a well-formed board \<^verbatim>\<open>FindBestMove\<close> returns; it returns \<open>- 1\<close> exactly when the
  board has no empty cell, and otherwise the index of a cell of the board that is empty.
\<close>

theorem FindBestMove_sentinel:
  assumes "wf_board board"
  shows "\<exists>k. FindBestMove board mover = Some (Inr k) \<and>
           (k = - 1 \<longleftrightarrow> None' \<notin> set board) \<and>
           (k \<noteq> - 1 \<longrightarrow> 0 \<le> k \<and> k < boardWidth * boardWidth \<and> board ! nat k = None')"
proof (cases "None' \<in> set board")
  case True
  obtain k where k: "FindBestMove board mover = Some (Inr (int k))" "k < length board"
      "board ! k = None'"
    using FindBestMove_first_empty [OF assms True, of mover] by blast
  have "int k < boardWidth * boardWidth" using k(2) assms by (simp add: wf_board_def)
  then show ?thesis using k True by simp
next
  case False
  then have "set (empties board 0) = {}"
    unfolding set_empties [OF assms] by (auto simp: in_set_conv_nth)
  then have "empties board 0 = []" by simp
  then have "FindBestMove board mover = Some (Inr (- 1))"
    using FindBestMove_scan [OF assms, of mover] by simp
  then show ?thesis using False by simp
qed


theorem FindBestMove_sentinel_witness:
  "wf_board full_board \<and> FindBestMove full_board computerPiece = Some (Inr (- 1))"
proof -
  have w: "wf_board full_board" by (simp add: wf_board_def full_board_def boardWidth_def)
  have f: "None' \<notin> set full_board" by (simp add: full_board_def)
  show ?thesis using FindBestMove_sentinel [OF w, of computerPiece] w f by auto
qed

section \<open>The first move on the empty board\<close>

text \<open>
  The search from the empty board visits more than half a million positions. Its
  outcome is established with two certifying procedures instead: \<open>le0\<close> and \<open>ge0\<close>
  search for a proof that the score of a position is at most, respectively at least,
  zero, and stop at the first reply that works. They test for a win with the table
  \<open>lines_through\<close> of the lines of the 3 by 3 board. Both are proved sound for
  \<open>score\<close>, hence for \<^verbatim>\<open>MiniMax\<close>.
\<close>

definition empty_board :: Board where
  "empty_board = [None', None', None', None', None', None', None', None', None']"

definition lines_through :: "nat \<Rightarrow> (nat \<times> nat) list" where
  "lines_through p =
     [[(3, 6), (1, 2), (4, 8)],
      [(4, 7), (0, 2)],
      [(5, 8), (0, 1), (4, 6)],
      [(0, 6), (4, 5)],
      [(1, 7), (3, 5), (0, 8), (2, 6)],
      [(2, 8), (3, 4)],
      [(0, 3), (7, 8), (2, 4)],
      [(1, 4), (6, 8)],
      [(2, 5), (6, 7), (0, 4)]] ! p"

definition won :: "Board \<Rightarrow> nat \<Rightarrow> bool" where
  "won board p = list_ex (\<lambda>(i, j). board ! i = board ! p \<and> board ! j = board ! p) (lines_through p)"

lemma on_run_windows:
  "on_run board idx d \<longleftrightarrow>
     (let e = board ! nat idx; c = cell_of idx in
        (hit board e c \<and> hit board e (shift c 1 d) \<and> hit board e (shift c 2 d)) \<or>
        (hit board e (shift c (- 1) d) \<and> hit board e c \<and> hit board e (shift c 1 d)) \<or>
        (hit board e (shift c (- 2) d) \<and> hit board e (shift c (- 1) d) \<and> hit board e c))"
proof -
  let ?e = "board ! nat idx" and ?c = "cell_of idx"
  let ?H = "\<lambda>t. hit board ?e (shift ?c t d)"
  have c0: "shift ?c 0 d = ?c" by (simp add: shift_def)
  have three: "(\<forall>k \<in> {0..<3::nat}. P k) \<longleftrightarrow> P 0 \<and> P 1 \<and> P 2" for P
  proof -
    have "{0..<3::nat} = {0, 1, 2}" by auto
    then show ?thesis by simp
  qed
  have "on_run board idx d \<longleftrightarrow> (?H 0 \<and> ?H 1 \<and> ?H 2) \<or> (?H (- 1) \<and> ?H 0 \<and> ?H 1) \<or>
      (?H (- 2) \<and> ?H (- 1) \<and> ?H 0)" (is "_ \<longleftrightarrow> ?R")
  proof
    assume "on_run board idx d"
    then obtain a b where raw: "a \<in> set [0..<nat boardWidth]" "b \<in> set [0..<nat boardWidth]"
        "piecesToWin \<le> int a + int b + 1"
        "\<forall>k \<in> set [0..<a + b + 1]. ?H (int k - int a)"
      unfolding on_run_def by blast
    have ab: "a < 3" "2 \<le> a + b"
      using raw(1,3) by (simp_all add: boardWidth_def piecesToWin_def)
    have h: "?H (int k - int a)" if "k \<le> 2" for k
    proof -
      have "k \<in> set [0..<a + b + 1]" using ab(2) that by auto
      then show ?thesis using raw(4) by blast
    qed
    consider "a = 0" | "a = 1" | "a = 2" using ab(1) by linarith
    then show ?R
    proof cases
      case 1
      then show ?thesis using h [of 0] h [of 1] h [of 2] by simp
    next
      case 2
      then show ?thesis using h [of 0] h [of 1] h [of 2] by simp
    next
      case 3
      then show ?thesis using h [of 0] h [of 1] h [of 2] by simp
    qed
  next
    assume ?R
    then consider (a) "?H 0" "?H 1" "?H 2" | (b) "?H (- 1)" "?H 0" "?H 1"
      | (c) "?H (- 2)" "?H (- 1)" "?H 0" by blast
    then show "on_run board idx d"
    proof cases
      case a
      have "\<forall>k \<in> set [0..<0 + 2 + 1]. ?H (int k - int 0)"
        using a by (simp add: three)
      then show ?thesis unfolding on_run_def
        by (intro bexI [of _ 0] bexI [of _ 2] conjI)
          (simp_all add: boardWidth_def piecesToWin_def)
    next
      case b
      have "\<forall>k \<in> set [0..<1 + 1 + 1]. ?H (int k - int 1)"
        using b by (simp add: three)
      then show ?thesis unfolding on_run_def
        by (intro bexI [of _ 1] conjI)
          (simp_all add: boardWidth_def piecesToWin_def)
    next
      case c
      have "\<forall>k \<in> set [0..<2 + 0 + 1]. ?H (int k - int 2)"
        using c by (simp add: three)
      then show ?thesis unfolding on_run_def
        by (rule_tac bexI [of _ 2], rule_tac bexI [of _ 0])
          (simp_all add: boardWidth_def piecesToWin_def)
    qed
  qed
  then show ?thesis by (simp add: Let_def c0)
qed

lemmas won_defs = on_run_windows families_def hit_def in_grid_def cell_def cell_of_def
  shift_def boardWidth_def won_def lines_through_def Let_def

lemma won_iff:
  assumes "p < 9"
  shows "won board p \<longleftrightarrow> (\<exists>d \<in> set families. on_run board (int p) d)"
proof -
  consider "p = 0" | "p = 1" | "p = 2" | "p = 3" | "p = 4" | "p = 5" | "p = 6" | "p = 7"
    | "p = 8" using assms by linarith
  then show ?thesis
  proof cases
    case 1 then show ?thesis by (simp add: won_defs) blast
  next
    case 2 then show ?thesis by (simp add: won_defs) blast
  next
    case 3 then show ?thesis by (simp add: won_defs) blast
  next
    case 4 then show ?thesis by (simp add: won_defs) blast
  next
    case 5 then show ?thesis by (simp add: won_defs) blast
  next
    case 6 then show ?thesis by (simp add: won_defs) blast
  next
    case 7 then show ?thesis by (simp add: won_defs) blast
  next
    case 8 then show ?thesis by (simp add: won_defs) blast
  next
    case 9 then show ?thesis by (simp add: won_defs) blast
  qed
qed

definition cells :: "nat list" where
  "cells = [0, 1, 2, 3, 4, 5, 6, 7, 8]"

fun le0 :: "nat \<Rightarrow> Board \<Rightarrow> nat \<Rightarrow> bool \<Rightarrow> bool"
  and le0_all :: "nat \<Rightarrow> Board \<Rightarrow> nat list \<Rightarrow> bool"
  and le0_ex :: "nat \<Rightarrow> Board \<Rightarrow> nat list \<Rightarrow> bool"
where
  "le0 0 board p m = False"
| "le0 (Suc n) board p m =
     (if won board p then board ! p \<noteq> computerPiece
      else if None' \<notin> set board then True
      else if m then le0_all n board cells
      else le0_ex n board cells)"
| "le0_all n board [] = True"
| "le0_all n board (j # js) =
     (if board ! j = None'
      then (if le0 n (board[j := computerPiece]) j False then le0_all n board js else False)
      else le0_all n board js)"
| "le0_ex n board [] = False"
| "le0_ex n board (j # js) =
     (if board ! j = None'
      then (if le0 n (board[j := playerPiece]) j True then True else le0_ex n board js)
      else le0_ex n board js)"

fun ge0 :: "nat \<Rightarrow> Board \<Rightarrow> nat \<Rightarrow> bool \<Rightarrow> bool"
  and ge0_all :: "nat \<Rightarrow> Board \<Rightarrow> nat list \<Rightarrow> bool"
  and ge0_ex :: "nat \<Rightarrow> Board \<Rightarrow> nat list \<Rightarrow> bool"
where
  "ge0 0 board p m = False"
| "ge0 (Suc n) board p m =
     (if won board p then board ! p = computerPiece
      else if None' \<notin> set board then True
      else if m then ge0_ex n board cells
      else ge0_all n board cells)"
| "ge0_all n board [] = True"
| "ge0_all n board (j # js) =
     (if board ! j = None'
      then (if ge0 n (board[j := playerPiece]) j True then ge0_all n board js else False)
      else ge0_all n board js)"
| "ge0_ex n board [] = False"
| "ge0_ex n board (j # js) =
     (if board ! j = None'
      then (if ge0 n (board[j := computerPiece]) j False then True else ge0_ex n board js)
      else ge0_ex n board js)"

lemma score_won:
  assumes wf: "wf_board board" and p: "p < 9"
  shows "score board (int p) m =
     (if won board p then (if board ! p = computerPiece then 1 else - 1)
      else if None' \<notin> set board then 0
      else if m then fold (max_step board) (empties board 0) (- 1000)
      else fold (min_step board) (empties board 0) 1000)"
proof -
  have r: "0 \<le> int p" "int p < boardWidth * boardWidth" using p by (simp_all add: boardWidth_def)
  note cw = CheckWin_find [OF wf r]
  have e: "empties board 0 = [] \<longleftrightarrow> None' \<notin> set board"
  proof -
    have "set (empties board 0) = {} \<longleftrightarrow> None' \<notin> set board"
      unfolding set_empties [OF wf] by (auto simp: in_set_conv_nth)
    then show ?thesis by simp
  qed
  show ?thesis
  proof (cases "won board p")
    case True
    then have "find (on_run board (int p)) families \<noteq> None"
      unfolding won_iff [OF p] find_None_iff by blast
    then obtain d where "find (on_run board (int p)) families = Some d" by blast
    then show ?thesis using True cw by (simp add: score_unfold [of board])
  next
    case False
    then have "find (on_run board (int p)) families = None"
      unfolding won_iff [OF p] find_None_iff by blast
    then show ?thesis using False cw wf e by (simp add: score_unfold [of board])
  qed
qed

lemma cells_range: "set cells = {j. j < 9}"
  by (auto simp: cells_def)

lemma le0_sound:
  "le0 n board p m \<Longrightarrow> wf_board board \<Longrightarrow> p < 9 \<Longrightarrow> score board (int p) m \<le> 0"
  "le0_all n board js \<Longrightarrow> wf_board board \<Longrightarrow> set js \<subseteq> set cells \<Longrightarrow>
     \<forall>j \<in> set js. board ! j = None' \<longrightarrow> score (board[j := computerPiece]) (int j) False \<le> 0"
  "le0_ex n board js \<Longrightarrow> wf_board board \<Longrightarrow> set js \<subseteq> set cells \<Longrightarrow>
     \<exists>j \<in> set js. board ! j = None' \<and> score (board[j := playerPiece]) (int j) True \<le> 0"
proof (induction n board p m and n board js and n board js rule: le0_le0_all_le0_ex.induct)
  case (1 board p m)
  then show ?case by simp
next
  case (2 n board p m)
  note sw = score_won [OF "2.prems"(2,3), of m]
  have len: "length board = 9" using "2.prems"(2) by (simp add: wf_board_def boardWidth_def)
  show ?case
  proof (cases "won board p")
    case True
    then show ?thesis using "2.prems"(1) sw by simp
  next
    case nw: False
    show ?thesis
    proof (cases "None' \<notin> set board")
      case True
      then show ?thesis using nw sw by simp
    next
      case some: False
      show ?thesis
      proof (cases m)
        case True
        then have "le0_all n board cells" using "2.prems"(1) nw some by simp
        then have "\<forall>j \<in> set cells. board ! j = None' \<longrightarrow>
            score (board[j := computerPiece]) (int j) False \<le> 0"
          using "2.IH"(1) nw some True "2.prems"(2) by simp
        then have "fold (max_step board) (empties board 0) (- 1000) \<le> 0"
          unfolding max_step_eq fold_max_le_iff set_empties [OF "2.prems"(2)]
          by (simp add: cells_range len)
        then show ?thesis using nw some True sw by simp
      next
        case False
        then have "le0_ex n board cells" using "2.prems"(1) nw some by simp
        then have "\<exists>j \<in> set cells. board ! j = None' \<and>
            score (board[j := playerPiece]) (int j) True \<le> 0"
          using "2.IH"(2) nw some False "2.prems"(2) by simp
        then have "fold (min_step board) (empties board 0) 1000 \<le> 0"
          unfolding min_step_eq fold_min_le_iff set_empties [OF "2.prems"(2)]
          by (auto simp: cells_range len)
        then show ?thesis using nw some False sw by simp
      qed
    qed
  qed
next
  case (3 n board)
  then show ?case by simp
next
  case (4 n board j js)
  have j: "j < 9" using "4.prems"(3) by (simp add: cells_range)
  show ?case
  proof (cases "board ! j = None'")
    case True
    then have a: "le0 n (board[j := computerPiece]) j False" and b: "le0_all n board js"
      using "4.prems"(1) by (simp_all split: if_splits)
    have "score (board[j := computerPiece]) (int j) False \<le> 0"
      using "4.IH"(1) [OF True a wf_board_update [OF "4.prems"(2)] j] .
    moreover have "\<forall>i \<in> set js. board ! i = None' \<longrightarrow>
        score (board[i := computerPiece]) (int i) False \<le> 0"
      using "4.IH"(2) [OF True a b "4.prems"(2)] "4.prems"(3) by simp
    ultimately show ?thesis by simp
  next
    case False
    then have b: "le0_all n board js" using "4.prems"(1) by simp
    have "\<forall>i \<in> set js. board ! i = None' \<longrightarrow>
        score (board[i := computerPiece]) (int i) False \<le> 0"
      using "4.IH"(3) [OF False b "4.prems"(2)] "4.prems"(3) by simp
    then show ?thesis using False by simp
  qed
next
  case (5 n board)
  then show ?case by simp
next
  case (6 n board j js)
  have j: "j < 9" using "6.prems"(3) by (simp add: cells_range)
  show ?case
  proof (cases "board ! j = None' \<and> le0 n (board[j := playerPiece]) j True")
    case True
    then have "score (board[j := playerPiece]) (int j) True \<le> 0"
      using "6.IH"(1) [OF _ _ wf_board_update [OF "6.prems"(2)] j] by simp
    then show ?thesis using True by auto
  next
    case False
    then have b: "le0_ex n board js" using "6.prems"(1) by (auto split: if_splits)
    have "\<exists>i \<in> set js. board ! i = None' \<and> score (board[i := playerPiece]) (int i) True \<le> 0"
    proof (cases "board ! j = None'")
      case True
      then have "\<not> le0 n (board[j := playerPiece]) j True" using False by simp
      then show ?thesis using "6.IH"(2) [OF True _ b "6.prems"(2)] "6.prems"(3) by simp
    next
      case empty: False
      then show ?thesis using "6.IH"(3) [OF empty b "6.prems"(2)] "6.prems"(3) by simp
    qed
    then show ?thesis by auto
  qed
qed

lemma ge0_sound:
  "ge0 n board p m \<Longrightarrow> wf_board board \<Longrightarrow> p < 9 \<Longrightarrow> 0 \<le> score board (int p) m"
  "ge0_all n board js \<Longrightarrow> wf_board board \<Longrightarrow> set js \<subseteq> set cells \<Longrightarrow>
     \<forall>j \<in> set js. board ! j = None' \<longrightarrow> 0 \<le> score (board[j := playerPiece]) (int j) True"
  "ge0_ex n board js \<Longrightarrow> wf_board board \<Longrightarrow> set js \<subseteq> set cells \<Longrightarrow>
     \<exists>j \<in> set js. board ! j = None' \<and> 0 \<le> score (board[j := computerPiece]) (int j) False"
proof (induction n board p m and n board js and n board js rule: ge0_ge0_all_ge0_ex.induct)
  case (1 board p m)
  then show ?case by simp
next
  case (2 n board p m)
  note sw = score_won [OF "2.prems"(2,3), of m]
  have len: "length board = 9" using "2.prems"(2) by (simp add: wf_board_def boardWidth_def)
  show ?case
  proof (cases "won board p")
    case True
    then show ?thesis using "2.prems"(1) sw by simp
  next
    case nw: False
    show ?thesis
    proof (cases "None' \<notin> set board")
      case True
      then show ?thesis using nw sw by simp
    next
      case some: False
      show ?thesis
      proof (cases m)
        case True
        then have "ge0_ex n board cells" using "2.prems"(1) nw some by simp
        then have "\<exists>j \<in> set cells. board ! j = None' \<and>
            0 \<le> score (board[j := computerPiece]) (int j) False"
          using "2.IH"(1) nw some True "2.prems"(2) by simp
        then have "0 \<le> fold (max_step board) (empties board 0) (- 1000)"
          unfolding max_step_eq fold_max_ge_iff set_empties [OF "2.prems"(2)]
          by (auto simp: cells_range len)
        then show ?thesis using nw some True sw by simp
      next
        case False
        then have "ge0_all n board cells" using "2.prems"(1) nw some by simp
        then have "\<forall>j \<in> set cells. board ! j = None' \<longrightarrow>
            0 \<le> score (board[j := playerPiece]) (int j) True"
          using "2.IH"(2) nw some False "2.prems"(2) by simp
        then have "0 \<le> fold (min_step board) (empties board 0) 1000"
          unfolding min_step_eq fold_min_ge_iff set_empties [OF "2.prems"(2)]
          by (simp add: cells_range len)
        then show ?thesis using nw some False sw by simp
      qed
    qed
  qed
next
  case (3 n board)
  then show ?case by simp
next
  case (4 n board j js)
  have j: "j < 9" using "4.prems"(3) by (simp add: cells_range)
  show ?case
  proof (cases "board ! j = None'")
    case True
    then have a: "ge0 n (board[j := playerPiece]) j True" and b: "ge0_all n board js"
      using "4.prems"(1) by (simp_all split: if_splits)
    have "0 \<le> score (board[j := playerPiece]) (int j) True"
      using "4.IH"(1) [OF True a wf_board_update [OF "4.prems"(2)] j] .
    moreover have "\<forall>i \<in> set js. board ! i = None' \<longrightarrow>
        0 \<le> score (board[i := playerPiece]) (int i) True"
      using "4.IH"(2) [OF True a b "4.prems"(2)] "4.prems"(3) by simp
    ultimately show ?thesis by simp
  next
    case False
    then have b: "ge0_all n board js" using "4.prems"(1) by simp
    have "\<forall>i \<in> set js. board ! i = None' \<longrightarrow>
        0 \<le> score (board[i := playerPiece]) (int i) True"
      using "4.IH"(3) [OF False b "4.prems"(2)] "4.prems"(3) by simp
    then show ?thesis using False by simp
  qed
next
  case (5 n board)
  then show ?case by simp
next
  case (6 n board j js)
  have j: "j < 9" using "6.prems"(3) by (simp add: cells_range)
  show ?case
  proof (cases "board ! j = None' \<and> ge0 n (board[j := computerPiece]) j False")
    case True
    then have "0 \<le> score (board[j := computerPiece]) (int j) False"
      using "6.IH"(1) [OF _ _ wf_board_update [OF "6.prems"(2)] j] by simp
    then show ?thesis using True by auto
  next
    case False
    then have b: "ge0_ex n board js" using "6.prems"(1) by (auto split: if_splits)
    have "\<exists>i \<in> set js. board ! i = None' \<and> 0 \<le> score (board[i := computerPiece]) (int i) False"
    proof (cases "board ! j = None'")
      case True
      then have "\<not> ge0 n (board[j := computerPiece]) j False" using False by simp
      then show ?thesis using "6.IH"(2) [OF True _ b "6.prems"(2)] "6.prems"(3) by simp
    next
      case empty: False
      then show ?thesis using "6.IH"(3) [OF empty b "6.prems"(2)] "6.prems"(3) by simp
    qed
    then show ?thesis by auto
  qed
qed


lemma wf_empty_board: "wf_board empty_board"
  by (simp add: wf_board_def empty_board_def boardWidth_def)

lemma wf_first_move: "wf_board (empty_board[j := c])"
  by (rule wf_board_update [OF wf_empty_board])

lemma first_move_le0:
  "le0 10 (empty_board[0 := Cricle]) 0 False"
  "le0 10 (empty_board[1 := Cricle]) 1 False"
  "le0 10 (empty_board[2 := Cricle]) 2 False"
  "le0 10 (empty_board[3 := Cricle]) 3 False"
  "le0 10 (empty_board[4 := Cricle]) 4 False"
  "le0 10 (empty_board[5 := Cricle]) 5 False"
  "le0 10 (empty_board[6 := Cricle]) 6 False"
  "le0 10 (empty_board[7 := Cricle]) 7 False"
  "le0 10 (empty_board[8 := Cricle]) 8 False"
  by code_simp+

lemma first_move_ge0:
  "ge0 10 (empty_board[0 := Cricle]) 0 False"
  "ge0 10 (empty_board[1 := Cricle]) 1 False"
  "ge0 10 (empty_board[2 := Cricle]) 2 False"
  "ge0 10 (empty_board[3 := Cricle]) 3 False"
  "ge0 10 (empty_board[4 := Cricle]) 4 False"
  "ge0 10 (empty_board[5 := Cricle]) 5 False"
  "ge0 10 (empty_board[6 := Cricle]) 6 False"
  "ge0 10 (empty_board[7 := Cricle]) 7 False"
  "ge0 10 (empty_board[8 := Cricle]) 8 False"
  by code_simp+

lemma first_move_score:
  assumes "j < 9"
  shows "score (empty_board[j := Cricle]) (int j) False = 0"
proof -
  have "le0 10 (empty_board[j := Cricle]) j False \<and> ge0 10 (empty_board[j := Cricle]) j False"
  proof -
    consider "j = 0" | "j = 1" | "j = 2" | "j = 3" | "j = 4" | "j = 5" | "j = 6" | "j = 7"
      | "j = 8" using assms by linarith
    then show ?thesis
    proof cases
      case 1 then show ?thesis using first_move_le0(1) first_move_ge0(1) by blast
    next
      case 2 then show ?thesis using first_move_le0(2) first_move_ge0(2) by blast
    next
      case 3 then show ?thesis using first_move_le0(3) first_move_ge0(3) by blast
    next
      case 4 then show ?thesis using first_move_le0(4) first_move_ge0(4) by blast
    next
      case 5 then show ?thesis using first_move_le0(5) first_move_ge0(5) by blast
    next
      case 6 then show ?thesis using first_move_le0(6) first_move_ge0(6) by blast
    next
      case 7 then show ?thesis using first_move_le0(7) first_move_ge0(7) by blast
    next
      case 8 then show ?thesis using first_move_le0(8) first_move_ge0(8) by blast
    next
      case 9 then show ?thesis using first_move_le0(9) first_move_ge0(9) by blast
    qed
  qed
  then have "score (empty_board[j := Cricle]) (int j) False \<le> 0"
      "0 \<le> score (empty_board[j := Cricle]) (int j) False"
    using le0_sound(1) [OF _ wf_first_move assms] ge0_sound(1) [OF _ wf_first_move assms]
    by blast+
  then show ?thesis by simp
qed

lemma empties_empty_board: "empties empty_board 0 = [0, 1, 2, 3, 4, 5, 6, 7, 8]"
  by code_simp

lemma scan_no_better:
  assumes "\<forall>j \<in> set js. f j \<le> v"
  shows "fold (scan_step f) js (v, k) = (v, k)"
  using assms by (induction js) (simp_all add: scan_step_def)

lemma FindBestMove_empty_board: "FindBestMove empty_board Cricle = Some (Inr 0)"
proof -
  let ?f = "\<lambda>j. score (empty_board[j := Cricle]) (int j) False"
  have zero: "\<forall>j \<in> set [1, 2, 3, 4, 5, 6, 7, 8]. ?f j \<le> 0"
  proof
    fix j :: nat assume "j \<in> set [1, 2, 3, 4, 5, 6, 7, 8]"
    then have "j < 9" by auto
    then show "?f j \<le> 0" using first_move_score by simp
  qed
  have "scan_step ?f 0 (- 1000, - 1) = (0, 0)"
    using first_move_score [of 0] by (simp add: scan_step_def)
  then have "fold (scan_step ?f) [0, 1, 2, 3, 4, 5, 6, 7, 8] (- 1000, - 1) = (0, 0)"
    using scan_no_better [OF zero, of 0] by simp
  then show ?thesis
    unfolding FindBestMove_scan [OF wf_empty_board] empties_empty_board by simp
qed

lemma moveVal_empty_board:
  assumes "j < 9"
  shows "moveVal empty_board Cricle j = Some 0"
proof -
  have "j < length empty_board" using assms by (simp add: empty_board_def)
  then show ?thesis
    using first_move_score [OF assms] by (simp add: moveVal_score [OF wf_empty_board])
qed


text \<open>
  C6, as the code has it. On the empty 3 by 3 board \<^verbatim>\<open>FindBestMove\<close> for the automated
  piece returns cell 0. Each of the nine first moves, the centre included, has
  \<^verbatim>\<open>MiniMax\<close> score 0, so the centre is score-optimal, and the strict comparison of the
  scan keeps the first cell.
\<close>

theorem FindBestMove_empty_board_first:
  "FindBestMove empty_board computerPiece = Some (Inr 0) \<and>
   map (moveVal empty_board computerPiece) [0, 1, 2, 3, 4, 5, 6, 7, 8] =
     [Some 0, Some 0, Some 0, Some 0, Some 0, Some 0, Some 0, Some 0, Some 0]"
  using FindBestMove_empty_board moveVal_empty_board
  by (simp add: computerPiece_def playerStart_def)

text \<open>
  C6 as the specification states it fails: the move returned on the empty board is not
  the centre cell.
\<close>

theorem FindBestMove_empty_board_counterexample:
  "FindBestMove empty_board computerPiece \<noteq> Some (Inr 4)"
  using FindBestMove_empty_board by (simp add: computerPiece_def playerStart_def)



section \<open>The application state and its turns\<close>

text \<open>
  The members of \<^verbatim>\<open>App\<close> that the game logic reads and writes; the member \<^verbatim>\<open>board\<close>
  is the field \<open>app_board\<close>, \<open>board\<close> being the parameter of the functions above. The
  two \<^verbatim>\<open>float\<close> timers
  are left out: what the code asks of them arrives as an input of the operation
  (\<open>thought\<close> for \<^verbatim>\<open>aiThinkAccumulate > aiThinkTime\<close>). The future \<^verbatim>\<open>aiNextmMove\<close> is
  \<open>None\<close> when it holds no shared state, and otherwise the outcome of the search that
  \<^verbatim>\<open>std::async\<close> started on its copy of the board; \<open>ready\<close> says that \<^verbatim>\<open>wait_for\<close> did
  not time out. \<^verbatim>\<open>int\<close> division truncates towards zero (\<open>cdiv\<close>), and \<^verbatim>\<open>placedPieces++\<close>
  wraps at 32 bits.

  A turn works on the members, so its outcome \<open>turn_result\<close> carries them: \<open>Some (Inr s')\<close>
  when the turn returns in the state \<open>s'\<close>, and \<open>Some (Inl (e, s'))\<close> when it throws \<open>e\<close>
  with the members as \<open>s'\<close> at the throw. \<^verbatim>\<open>get\<close> releases the shared state of the future,
  also when it rethrows.
\<close>

definition tileSize :: int where
  "tileSize = 32"

definition cdiv :: "int \<Rightarrow> int \<Rightarrow> int" where
  "cdiv a b = sgn a * sgn b * (\<bar>a\<bar> div \<bar>b\<bar>)"

definition WindowPosToBoardIdx :: "vi2d \<Rightarrow> int" where
  "WindowPosToBoardIdx pos =
     (let x = cdiv (fst pos) tileSize; y = cdiv (snd pos) tileSize in x * boardWidth + y)"

record App =
  app_board :: Board
  placedPieces :: int
  currentTurn :: EPiece
  aiNextmMove :: "int result option"
  bGameEnded :: bool
  winningMove :: "WinningMove option"
  endMessage :: string

type_synonym turn_result = "(error \<times> App + App) option"

definition App_init :: App where
  "App_init =
     \<lparr>app_board = replicate (nat (boardWidth * boardWidth)) None', placedPieces = 0,
      currentTurn = None', aiNextmMove = None, bGameEnded = False, winningMove = None,
      endMessage = []\<rparr>"

definition StartAiThink :: "App \<Rightarrow> App" where
  "StartAiThink s = s\<lparr>aiNextmMove := Some (FindBestMove (app_board s) computerPiece)\<rparr>"

definition Reset :: "App \<Rightarrow> App" where
  "Reset s =
     (let s1 = s\<lparr>winningMove := None, bGameEnded := False, currentTurn := Cross,
                 app_board := map (\<lambda>c. None') (app_board s), placedPieces := 0\<rparr>
      in if useAi \<and> currentTurn s1 = computerPiece then StartAiThink s1 else s1)"

definition HandlePlayerTurn :: "App \<Rightarrow> bool \<Rightarrow> vi2d \<Rightarrow> turn_result" where
  "HandlePlayerTurn s pressed mousePos =
     (if pressed
      then (let SelectedTile = WindowPosToBoardIdx mousePos in
            case board_at (app_board s) SelectedTile of
              Inl e \<Rightarrow> Some (Inl (e, s))
            | Inr c \<Rightarrow>
                if c = None'
                then (let s1 = s\<lparr>placedPieces := int32 (placedPieces s + 1)\<rparr>;
                          s2 = s1\<lparr>app_board := (app_board s1)[nat SelectedTile := currentTurn s1]\<rparr>;
                          s3 = s2\<lparr>currentTurn :=
                                    (if currentTurn s2 = Cross then Cricle else Cross)\<rparr>
                      in case CheckWin (app_board s3) SelectedTile of
                           None \<Rightarrow> None
                         | Some (Inl e) \<Rightarrow> Some (Inl (e, s3))
                         | Some (Inr w) \<Rightarrow>
                             (let s4 = s3\<lparr>winningMove := w\<rparr>
                              in Some (Inr (if useAi then StartAiThink s4 else s4))))
                else Some (Inr s))
      else Some (Inr s))"

definition HandleAiTurn :: "App \<Rightarrow> bool \<Rightarrow> bool \<Rightarrow> turn_result" where
  "HandleAiTurn s thought ready =
     (if thought
      then (case aiNextmMove s of
              None \<Rightarrow> Some (Inl (future_no_state, s))
            | Some task \<Rightarrow>
                (case (if ready then task else None) of
                   None \<Rightarrow> Some (Inr s)
                 | Some (Inl e) \<Rightarrow> Some (Inl (e, s\<lparr>aiNextmMove := None\<rparr>))
                 | Some (Inr move) \<Rightarrow>
                     (let s0 = s\<lparr>aiNextmMove := None\<rparr> in
                      if move \<noteq> - 1
                      then (case board_at (app_board s0) move of
                              Inl e \<Rightarrow> Some (Inl (e, s0))
                            | Inr c \<Rightarrow>
                                if c = None'
                                then (let s1 = s0\<lparr>placedPieces := int32 (placedPieces s0 + 1)\<rparr>;
                                          s2 = s1\<lparr>app_board :=
                                                    (app_board s1)[nat move := computerPiece]\<rparr>;
                                          s3 = s2\<lparr>currentTurn :=
                                                    (if currentTurn s2 = Cross then Cricle
                                                     else Cross)\<rparr>
                                      in case CheckWin (app_board s3) move of
                                           None \<Rightarrow> None
                                         | Some (Inl e) \<Rightarrow> Some (Inl (e, s3))
                                         | Some (Inr w) \<Rightarrow> Some (Inr (s3\<lparr>winningMove := w\<rparr>)))
                                else Some (Inr s0))
                      else Some (Inr s0))))
      else Some (Inr s))"

text \<open>
  The states of a run: \<^verbatim>\<open>OnUserCreate\<close> resets the freshly constructed \<^verbatim>\<open>App\<close>, and every
  later state comes from a reset or from a turn that returned.
\<close>

inductive reachable :: "App \<Rightarrow> bool" where
  created: "reachable (Reset App_init)"
| reset: "reachable s \<Longrightarrow> reachable (Reset s)"
| player: "reachable s \<Longrightarrow> HandlePlayerTurn s pressed mousePos = Some (Inr s') \<Longrightarrow> reachable s'"
| ai: "reachable s \<Longrightarrow> HandleAiTurn s thought ready = Some (Inr s') \<Longrightarrow> reachable s'"

text \<open>
  \<open>placed board\<close> counts the cells that are not empty. \<open>game_inv\<close> is the invariant of
  the reachable states; the turn is part of it because a placement by the piece
  \<^verbatim>\<open>EPiece::None\<close> would count a cell that stays empty.
\<close>

definition placed :: "Board \<Rightarrow> int" where
  "placed board = int (length (filter (\<lambda>c. c \<noteq> None') board))"

definition game_inv :: "App \<Rightarrow> bool" where
  "game_inv s = (wf_board (app_board s) \<and> placedPieces s = placed (app_board s) \<and>
                 currentTurn s \<noteq> None')"

text \<open>
  \<open>placed_at s idx pc s'\<close>: the cell \<open>idx\<close> now holds \<open>pc\<close>, the counter is one higher, the
  turn went to the other piece. \<open>after_first_click\<close> is the state after a click on cell 0
  in a new game, and \<open>pending move\<close> is that state with \<open>move\<close> as the finished result
  of the search.
\<close>

definition placed_at :: "App \<Rightarrow> int \<Rightarrow> EPiece \<Rightarrow> App \<Rightarrow> bool" where
  "placed_at s idx pc s' =
     (app_board s' = (app_board s)[nat idx := pc] \<and> placedPieces s' = placedPieces s + 1 \<and>
      currentTurn s' = (if currentTurn s = Cross then Cricle else Cross))"

definition after_first_click :: App where
  "after_first_click =
     \<lparr>app_board = [Cross, None', None', None', None', None', None', None', None'],
      placedPieces = 1, currentTurn = Cricle,
      aiNextmMove = Some (FindBestMove
        [Cross, None', None', None', None', None', None', None', None'] computerPiece),
      bGameEnded = False, winningMove = None, endMessage = []\<rparr>"

definition pending :: "int \<Rightarrow> App" where
  "pending move = after_first_click\<lparr>aiNextmMove := Some (Some (Inr move))\<rparr>"

lemma placed_update:
  "n < length board \<Longrightarrow> board ! n = None' \<Longrightarrow> c \<noteq> None' \<Longrightarrow>
   placed (board[n := c]) = placed board + 1"
  unfolding placed_def
proof (induction board arbitrary: n)
  case Nil
  then show ?case by simp
next
  case (Cons x xs)
  then show ?case by (cases n) auto
qed

lemma placed_bounds: "0 \<le> placed board \<and> placed board \<le> int (length board)"
  by (simp add: placed_def)

lemma placed_blank: "placed (map (\<lambda>c. None') board) = 0"
  by (simp add: placed_def)

lemma game_inv_Reset: "wf_board (app_board s) \<Longrightarrow> game_inv (Reset s)"
  by (simp add: game_inv_def Reset_def StartAiThink_def Let_def placed_blank wf_board_def
      pieces_not_empty)

lemma wf_App_init: "wf_board (app_board App_init)"
  by (simp add: App_init_def wf_board_def boardWidth_def)

lemma next_count:
  assumes "game_inv s" "board_at (app_board s) i = Inr None'"
  shows "int32 (placedPieces s + 1) = placedPieces s + 1"
proof -
  have "placedPieces s \<le> 9" "0 \<le> placedPieces s"
    using assms(1) placed_bounds [of "app_board s"]
    by (simp_all add: game_inv_def wf_board_def boardWidth_def)
  then show ?thesis by (intro int32_id) (simp add: is_int32_def)
qed

lemma game_inv_player:
  assumes inv: "game_inv s" and run: "HandlePlayerTurn s pressed mousePos = Some (Inr s')"
  shows "game_inv s'"
proof (cases pressed)
  case False
  then show ?thesis using inv run by (simp add: HandlePlayerTurn_def)
next
  case True
  let ?i = "WindowPosToBoardIdx mousePos"
  show ?thesis
  proof (cases "board_at (app_board s) ?i")
    case (Inl e)
    then show ?thesis using run True by (simp add: HandlePlayerTurn_def Let_def)
  next
    case (Inr c)
    show ?thesis
    proof (cases "c = None'")
      case False
      then show ?thesis using run True Inr inv by (simp add: HandlePlayerTurn_def Let_def)
    next
      case empty: True
      note at = board_at_Inr [OF Inr [unfolded empty]]
      have cnt: "int32 (placedPieces s + 1) = placedPieces s + 1"
        using next_count [OF inv] Inr empty by simp
      have turn: "currentTurn s \<noteq> None'" using inv by (simp add: game_inv_def)
      have pl: "placed ((app_board s)[nat ?i := currentTurn s]) = placed (app_board s) + 1"
        using placed_update at turn by simp
      from run True Inr empty obtain w where
        s': "s' = (if useAi then StartAiThink
                (s\<lparr>placedPieces := placedPieces s + 1,
                   app_board := (app_board s)[nat ?i := currentTurn s],
                   currentTurn := (if currentTurn s = Cross then Cricle else Cross),
                   winningMove := w\<rparr>)
              else s\<lparr>placedPieces := placedPieces s + 1,
                   app_board := (app_board s)[nat ?i := currentTurn s],
                   currentTurn := (if currentTurn s = Cross then Cricle else Cross),
                   winningMove := w\<rparr>)"
        by (auto simp: HandlePlayerTurn_def Let_def cnt split: option.splits sum.splits)
      show ?thesis
        using inv pl unfolding s'
        by (simp add: game_inv_def StartAiThink_def wf_board_update)
    qed
  qed
qed

lemma game_inv_ai:
  assumes inv: "game_inv s" and run: "HandleAiTurn s thought ready = Some (Inr s')"
  shows "game_inv s'"
proof -
  have keep: "game_inv (s\<lparr>aiNextmMove := None\<rparr>)" using inv by (simp add: game_inv_def)
  show ?thesis
  proof (cases "\<exists>move. thought \<and> ready \<and> aiNextmMove s = Some (Some (Inr move)) \<and> move \<noteq> - 1 \<and>
      board_at (app_board s) move = Inr None'")
    case False
    then have "s' = s \<or> s' = s\<lparr>aiNextmMove := None\<rparr>"
      using run
      by (auto simp: HandleAiTurn_def Let_def split: option.splits sum.splits if_splits)
    then show ?thesis using inv keep by blast
  next
    case True
    then obtain move where m: "thought" "ready" "aiNextmMove s = Some (Some (Inr move))"
        "move \<noteq> - 1" "board_at (app_board s) move = Inr None'" by blast
    note at = board_at_Inr [OF m(5)]
    have cnt: "int32 (placedPieces s + 1) = placedPieces s + 1"
      using next_count [OF inv m(5)] .
    have pl: "placed ((app_board s)[nat move := computerPiece]) = placed (app_board s) + 1"
      using placed_update at pieces_not_empty(1) by simp
    from run m obtain w where
      s': "s' = s\<lparr>aiNextmMove := None, placedPieces := placedPieces s + 1,
                   app_board := (app_board s)[nat move := computerPiece],
                   currentTurn := (if currentTurn s = Cross then Cricle else Cross),
                   winningMove := w\<rparr>"
      by (auto simp: HandleAiTurn_def Let_def cnt split: option.splits sum.splits)
    show ?thesis using inv pl unfolding s' by (simp add: game_inv_def wf_board_update)
  qed
qed

lemma reachable_inv: "reachable s \<Longrightarrow> game_inv s"
proof (induction rule: reachable.induct)
  case created
  show ?case by (rule game_inv_Reset [OF wf_App_init])
next
  case (reset s)
  then have "wf_board (app_board s)" by (simp add: game_inv_def)
  then show ?case by (rule game_inv_Reset)
next
  case (player s pressed mousePos s')
  then show ?case by (blast intro: game_inv_player)
next
  case (ai s thought ready s')
  then show ?case by (blast intro: game_inv_ai)
qed

lemma player_outcomes:
  assumes wf: "wf_board (app_board s)"
    and cnt: "is_int32 (placedPieces s + 1)"
  shows "(let idx = WindowPosToBoardIdx mousePos; r = HandlePlayerTurn s True mousePos in
          if idx < 0 \<or> boardWidth * boardWidth \<le> idx then r = Some (Inl (out_of_range, s))
          else if app_board s ! nat idx \<noteq> None' then r = Some (Inr s)
          else \<exists>s'. r = Some (Inr s') \<and> placed_at s idx (currentTurn s) s')"
proof -
  let ?i = "WindowPosToBoardIdx mousePos"
  show ?thesis
  proof (cases "?i < 0 \<or> boardWidth * boardWidth \<le> ?i")
    case True
    then have "board_at (app_board s) ?i = Inl out_of_range"
      using wf by (auto simp: board_at_def wf_board_def)
    then show ?thesis using True by (simp add: HandlePlayerTurn_def Let_def)
  next
    case False
    then have r: "0 \<le> ?i" "?i < boardWidth * boardWidth" by simp_all
    note at = board_at_wf [OF wf r]
    show ?thesis
    proof (cases "app_board s ! nat ?i = None'")
      case occupied: False
      then show ?thesis using False at by (simp add: HandlePlayerTurn_def Let_def)
    next
      case True
      note inc = int32_id [OF cnt]
      obtain w where w: "CheckWin ((app_board s)[nat ?i := currentTurn s]) ?i = Some (Inr w)"
        using CheckWin_returns [OF wf_board_update [OF wf] r] by blast
      show ?thesis
        using False True at w
        by (simp add: HandlePlayerTurn_def Let_def inc placed_at_def StartAiThink_def)
    qed
  qed
qed

lemma ai_outcomes:
  assumes wf: "wf_board (app_board s)"
    and cnt: "is_int32 (placedPieces s + 1)"
    and task: "aiNextmMove s = Some (Some (Inr move))"
  shows "(let r = HandleAiTurn s True True; s0 = s\<lparr>aiNextmMove := None\<rparr> in
          if move = - 1 then r = Some (Inr s0)
          else if move < 0 \<or> boardWidth * boardWidth \<le> move
            then r = Some (Inl (out_of_range, s0))
          else if app_board s ! nat move \<noteq> None' then r = Some (Inr s0)
          else \<exists>s'. r = Some (Inr s') \<and> placed_at s move computerPiece s')"
proof (cases "move = - 1")
  case True
  then show ?thesis using task by (simp add: HandleAiTurn_def Let_def)
next
  case sentinel: False
  show ?thesis
  proof (cases "move < 0 \<or> boardWidth * boardWidth \<le> move")
    case True
    then have "board_at (app_board s) move = Inl out_of_range"
      using wf by (auto simp: board_at_def wf_board_def)
    then show ?thesis using True sentinel task by (simp add: HandleAiTurn_def Let_def)
  next
    case False
    then have r: "0 \<le> move" "move < boardWidth * boardWidth" by simp_all
    note at = board_at_wf [OF wf r]
    show ?thesis
    proof (cases "app_board s ! nat move = None'")
      case occupied: False
      then show ?thesis using False sentinel task at
        by (simp add: HandleAiTurn_def Let_def)
    next
      case True
      note inc = int32_id [OF cnt]
      obtain w where w: "CheckWin ((app_board s)[nat move := computerPiece]) move = Some (Inr w)"
        using CheckWin_returns [OF wf_board_update [OF wf] r] by blast
      show ?thesis
        using False True sentinel task at w
        by (simp add: HandleAiTurn_def Let_def inc placed_at_def)
    qed
  qed
qed

lemma reachable_can_place:
  assumes "reachable s"
  shows "wf_board (app_board s) \<and> is_int32 (placedPieces s + 1)"
proof -
  have inv: "game_inv s" using assms by (rule reachable_inv)
  then have "0 \<le> placedPieces s" "placedPieces s \<le> 9"
    using placed_bounds [of "app_board s"]
    by (simp_all add: game_inv_def wf_board_def boardWidth_def)
  then show ?thesis using inv by (simp add: game_inv_def is_int32_def)
qed

lemma Reset_App_init:
  "Reset App_init =
     \<lparr>app_board = [None', None', None', None', None', None', None', None', None'],
      placedPieces = 0, currentTurn = Cross, aiNextmMove = None, bGameEnded = False,
      winningMove = None, endMessage = []\<rparr>"
  by (simp add: Reset_def App_init_def boardWidth_def computerPiece_def playerStart_def
      numeral_eq_Suc)

lemma first_click:
  "HandlePlayerTurn (Reset App_init) True (0, 0) = Some (Inr after_first_click)"
  unfolding Reset_App_init
  by (simp add: HandlePlayerTurn_def WindowPosToBoardIdx_def cdiv_def tileSize_def
      board_at_def Let_def int32_def StartAiThink_def useAi_def after_first_click_def
      CheckWin_def boardWidth_def piecesToWin_def CheckLine.simps vi2d_add_def)

lemma reachable_after_first_click: "reachable after_first_click"
  using reachable.player [OF reachable.created first_click] .

lemma ai_reply_exists:
  "\<exists>k. aiNextmMove after_first_click = Some (Some (Inr (int k))) \<and> k < 9 \<and>
       app_board after_first_click ! k = None'"
proof -
  let ?b = "[Cross, None', None', None', None', None', None', None', None']"
  have w: "wf_board ?b" by (simp add: wf_board_def boardWidth_def)
  have e: "None' \<in> set ?b" by simp
  obtain k where "FindBestMove ?b computerPiece = Some (Inr (int k))" "k < length ?b"
      "?b ! k = None'"
    using FindBestMove_first_empty [OF w e, of computerPiece] by blast
  then show ?thesis by (auto simp: after_first_click_def)
qed

text \<open>
  C7. Whenever \<^verbatim>\<open>MiniMax\<close> returns, the board it leaves behind is the board it was
  given, and on a well-formed board with the placed index on the board it does return.
  \<^verbatim>\<open>FindBestMove\<close> works on its own copy: starting the search leaves the board of the
  application as it is.
\<close>

theorem search_leaves_board:
  "(MiniMax board depth placedPiece isMax = Some (Inr (v, b)) \<longrightarrow> b = board) \<and>
   (wf_board board \<and> 0 \<le> placedPiece \<and> placedPiece < boardWidth * boardWidth \<longrightarrow>
      (\<exists>v'. MiniMax board depth placedPiece isMax = Some (Inr (v', board)))) \<and>
   app_board (StartAiThink s) = app_board s"
  using MiniMax_restores [of board depth placedPiece isMax v b]
    MiniMax_score(1) [of board placedPiece depth isMax]
  by (simp add: StartAiThink_def)

theorem search_leaves_board_witness:
  "wf_board late_board \<and> (\<exists>v. MiniMax late_board 7 4 False = Some (Inr (v, late_board)))"
proof -
  have w: "wf_board late_board" by (simp add: wf_board_def late_board_def boardWidth_def)
  show ?thesis
    using search_leaves_board [of late_board 7 4 False] w by (simp add: boardWidth_def)
qed

text \<open>
  C8. In every reachable state the counter \<^verbatim>\<open>placedPieces\<close> equals the number of
  non-empty cells of the board, and it still does after a reset, after a human turn
  and after applying the result of a search.
\<close>

theorem placed_counter_invariant:
  assumes "reachable s"
  shows "placedPieces s = placed (app_board s) \<and>
         placedPieces (Reset s) = placed (app_board (Reset s)) \<and>
         (\<forall>pressed mousePos s'. HandlePlayerTurn s pressed mousePos = Some (Inr s') \<longrightarrow>
            placedPieces s' = placed (app_board s')) \<and>
         (\<forall>thought ready s'. HandleAiTurn s thought ready = Some (Inr s') \<longrightarrow>
            placedPieces s' = placed (app_board s'))"
proof -
  have "game_inv s'" if "reachable s'" for s' using that by (rule reachable_inv)
  then show ?thesis
    using assms reachable.reset [OF assms] reachable.player [OF assms] reachable.ai [OF assms]
    unfolding game_inv_def by blast
qed

theorem placed_counter_invariant_witness:
  "HandlePlayerTurn (Reset App_init) True (0, 0) = Some (Inr after_first_click) \<and>
   placedPieces after_first_click = placed (app_board after_first_click) \<and>
   placedPieces after_first_click = 1"
  using placed_counter_invariant [OF reachable_after_first_click] first_click
  by (simp add: after_first_click_def)

text \<open>
  C9. The code has no placement operation of its own and no failure for an occupied
  cell: the two turns guard the placement with \<^verbatim>\<open>board.at(i) == EPiece::None\<close>. In every
  state whose board has \<open>boardWidth * boardWidth\<close> cells and whose counter can be
  incremented within the range of \<^verbatim>\<open>int\<close> (every reachable state is one, lemma
  \<open>reachable_can_place\<close>), a human placement at an index outside the
  board throws \<^verbatim>\<open>std::out_of_range\<close> with every member as it was; at an occupied cell
  the turn returns normally, in the state it was given; at an empty cell it sets the
  cell to the piece whose turn it is, adds one to the counter, passes the turn and
  returns. When the search has handed over \<open>move\<close>, applying it does the same with the
  automated piece, the sentinel \<open>- 1\<close> places nothing, and all that a rejected move
  changes is the future, which has been consumed: board, counter and turn are as they
  were.
\<close>

theorem placement_outcomes:
  assumes "wf_board (app_board s)" and "is_int32 (placedPieces s + 1)"
  shows "(let idx = WindowPosToBoardIdx mousePos; r = HandlePlayerTurn s True mousePos in
          if idx < 0 \<or> boardWidth * boardWidth \<le> idx then r = Some (Inl (out_of_range, s))
          else if app_board s ! nat idx \<noteq> None' then r = Some (Inr s)
          else \<exists>s'. r = Some (Inr s') \<and> placed_at s idx (currentTurn s) s') \<and>
         (aiNextmMove s = Some (Some (Inr move)) \<longrightarrow>
          (let r = HandleAiTurn s True True; s0 = s\<lparr>aiNextmMove := None\<rparr> in
           if move = - 1 then r = Some (Inr s0)
           else if move < 0 \<or> boardWidth * boardWidth \<le> move
             then r = Some (Inl (out_of_range, s0))
           else if app_board s ! nat move \<noteq> None' then r = Some (Inr s0)
           else \<exists>s'. r = Some (Inr s') \<and> placed_at s move computerPiece s'))"
  using player_outcomes [OF assms] ai_outcomes [OF assms] by blast

theorem placement_outcomes_witness:
  "wf_board (app_board after_first_click) \<and> is_int32 (placedPieces after_first_click + 1) \<and>
   HandlePlayerTurn after_first_click True (0, 0) = Some (Inr after_first_click) \<and>
   HandlePlayerTurn after_first_click True (200, 0) =
     Some (Inl (out_of_range, after_first_click)) \<and>
   (\<exists>s'. HandlePlayerTurn after_first_click True (40, 70) = Some (Inr s') \<and>
         placed_at after_first_click 5 Cricle s') \<and>
   HandleAiTurn (pending (- 1)) True True = Some (Inr ((pending (- 1))\<lparr>aiNextmMove := None\<rparr>)) \<and>
   HandleAiTurn (pending 9) True True =
     Some (Inl (out_of_range, (pending 9)\<lparr>aiNextmMove := None\<rparr>)) \<and>
   HandleAiTurn (pending 0) True True = Some (Inr ((pending 0)\<lparr>aiNextmMove := None\<rparr>)) \<and>
   (\<exists>s'. HandleAiTurn (pending 4) True True = Some (Inr s') \<and>
         placed_at (pending 4) 4 computerPiece s')"
proof -
  have w: "wf_board (app_board after_first_click)"
    by (simp add: after_first_click_def wf_board_def boardWidth_def)
  have n: "is_int32 (placedPieces after_first_click + 1)"
    by (simp add: after_first_click_def is_int32_def)
  have wp: "wf_board (app_board (pending m))" for m using w by (simp add: pending_def)
  have np: "is_int32 (placedPieces (pending m) + 1)" for m using n by (simp add: pending_def)
  have tp: "aiNextmMove (pending m) = Some (Some (Inr m))" for m by (simp add: pending_def)
  have a: "HandlePlayerTurn after_first_click True (0, 0) = Some (Inr after_first_click)"
    using placement_outcomes [OF w n, of "(0, 0)"]
    by (simp add: WindowPosToBoardIdx_def cdiv_def tileSize_def boardWidth_def Let_def
        after_first_click_def)
  have b: "HandlePlayerTurn after_first_click True (200, 0) =
      Some (Inl (out_of_range, after_first_click))"
    using placement_outcomes [OF w n, of "(200, 0)"]
    by (simp add: WindowPosToBoardIdx_def cdiv_def tileSize_def boardWidth_def Let_def)
  have c: "\<exists>s'. HandlePlayerTurn after_first_click True (40, 70) = Some (Inr s') \<and>
         placed_at after_first_click 5 Cricle s'"
    using placement_outcomes [OF w n, of "(40, 70)"]
    by (simp add: WindowPosToBoardIdx_def cdiv_def tileSize_def boardWidth_def Let_def
        after_first_click_def)
  have d: "HandleAiTurn (pending (- 1)) True True =
      Some (Inr ((pending (- 1))\<lparr>aiNextmMove := None\<rparr>))"
    using placement_outcomes [OF wp [of "- 1"] np [of "- 1"], of _ "- 1"] tp [of "- 1"]
    by (simp add: Let_def)
  have e: "HandleAiTurn (pending 9) True True =
      Some (Inl (out_of_range, (pending 9)\<lparr>aiNextmMove := None\<rparr>))"
    using placement_outcomes [OF wp [of 9] np [of 9], of _ 9] tp [of 9]
    by (simp add: Let_def boardWidth_def)
  have f: "HandleAiTurn (pending 0) True True = Some (Inr ((pending 0)\<lparr>aiNextmMove := None\<rparr>))"
    using placement_outcomes [OF wp [of 0] np [of 0], of _ 0] tp [of 0]
    by (simp add: Let_def boardWidth_def pending_def after_first_click_def)
  have g: "\<exists>s'. HandleAiTurn (pending 4) True True = Some (Inr s') \<and>
         placed_at (pending 4) 4 computerPiece s'"
    using placement_outcomes [OF wp [of 4] np [of 4], of _ 4] tp [of 4]
    by (simp add: Let_def boardWidth_def pending_def after_first_click_def)
  show ?thesis using w n a b c d e f g by blast
qed

text \<open>
  The state after the first click of a game is reachable, its cell 0 holds the cross,
  and a second click on that cell returns normally: no failure is reported for the
  occupied cell. Applying a finished search result that names the occupied cell
  returns normally as well.
\<close>

theorem placement_occupied_counterexample:
  "reachable after_first_click \<and>
   board_at (app_board after_first_click) (WindowPosToBoardIdx (0, 0)) = Inr Cross \<and>
   HandlePlayerTurn after_first_click True (0, 0) = Some (Inr after_first_click) \<and>
   board_at (app_board (pending 0)) 0 = Inr Cross \<and>
   HandleAiTurn (pending 0) True True = Some (Inr ((pending 0)\<lparr>aiNextmMove := None\<rparr>))"
proof -
  have "board_at (app_board after_first_click) (WindowPosToBoardIdx (0, 0)) = Inr Cross"
    by (simp add: after_first_click_def board_at_def WindowPosToBoardIdx_def cdiv_def
        tileSize_def Let_def)
  moreover from this
  have "HandlePlayerTurn after_first_click True (0, 0) = Some (Inr after_first_click)"
    by (simp add: HandlePlayerTurn_def Let_def)
  moreover have "board_at (app_board (pending 0)) 0 = Inr Cross"
    by (simp add: pending_def after_first_click_def board_at_def)
  moreover from this
  have "HandleAiTurn (pending 0) True True = Some (Inr ((pending 0)\<lparr>aiNextmMove := None\<rparr>))"
    by (simp add: HandleAiTurn_def Let_def pending_def)
  ultimately show ?thesis using reachable_after_first_click by blast
qed

end
